theory Spec2Isabelle
  imports Main "HOL-Library.Word"
begin

section \<open>Timeout resolution\<close>

text \<open>
  \<^verbatim>\<open>time.Duration\<close> is an \<^verbatim>\<open>int64\<close>. A \<^verbatim>\<open>sync.Map\<close> stores values of type
  \<^verbatim>\<open>any\<close>; the resolver only distinguishes a stored \<^verbatim>\<open>time.Duration\<close> from a
  value of any other dynamic type.
\<close>

type_synonym duration = "64 word"

datatype any = Duration duration | Other string

text \<open>The package variable \<^verbatim>\<open>methodTimeout\<close>, passed explicitly.\<close>

type_synonym registry = "string \<rightharpoonup> any"

definition Store :: "registry \<Rightarrow> string \<Rightarrow> any \<Rightarrow> registry" where
  "Store m k v = m(k \<mapsto> v)"

definition Load :: "registry \<Rightarrow> string \<Rightarrow> any option" where
  "Load m k = m k"

definition SetTimeoutForFullMethod :: "string \<Rightarrow> duration \<Rightarrow> registry \<Rightarrow> registry" where
  "SetTimeoutForFullMethod fullMethod timeout methodTimeout =
     Store methodTimeout fullMethod (Duration timeout)"

text \<open>
  \<^verbatim>\<open>info.Server\<close> is an \<^verbatim>\<open>any\<close>; the type assertion
  \<^verbatim>\<open>info.Server.(TimeoutStrategy)\<close> succeeds exactly when its dynamic type has the
  method \<^verbatim>\<open>GetTimeoutByFullMethod\<close>, which the model carries as a function.
  \<^verbatim>\<open>info\<close> is the pointee of the \<^verbatim>\<open>*grpc.UnaryServerInfo\<close> the gRPC server
  passes in.
\<close>

datatype server = PlainServer | TimeoutStrategy "string \<Rightarrow> duration \<Rightarrow> duration"

record UnaryServerInfo =
  Server :: server
  FullMethod :: string

definition getTimeoutByUnaryServerInfo ::
  "registry \<Rightarrow> UnaryServerInfo \<Rightarrow> duration \<Rightarrow> duration" where
  "getTimeoutByUnaryServerInfo methodTimeout info defaultTimeout =
     (case Server info of
        TimeoutStrategy GetTimeoutByFullMethod \<Rightarrow>
          GetTimeoutByFullMethod (FullMethod info) defaultTimeout
      | PlainServer \<Rightarrow>
          (case Load methodTimeout (FullMethod info) of
             Some (Duration t) \<Rightarrow> t
           | Some (Other _) \<Rightarrow> defaultTimeout
           | None \<Rightarrow> defaultTimeout))"

section \<open>The bounded executor\<close>

subsection \<open>Errors and the context-done branch\<close>

text \<open>
  The errors the wrapper can see: the two sentinel errors of package \<^verbatim>\<open>context\<close>, a gRPC
  status error (\<^verbatim>\<open>status.Error(code, msg)\<close>), an error that wraps another one, and any
  other error, known by its message. \<^verbatim>\<open>Error\<close> is the method \<^verbatim>\<open>err.Error()\<close> and
  \<^verbatim>\<open>errors_Is\<close> follows the chain of wrapped errors as \<^verbatim>\<open>errors.Is\<close> does.
\<close>

datatype codes = codes_Canceled | codes_DeadlineExceeded

datatype error =
    context_Canceled
  | context_DeadlineExceeded
  | status_Error codes string
  | Wrapped string error
  | OtherError string

fun codes_String :: "codes \<Rightarrow> string" where
  "codes_String codes_Canceled = ''Canceled''"
| "codes_String codes_DeadlineExceeded = ''DeadlineExceeded''"

fun Error :: "error \<Rightarrow> string" where
  "Error context_Canceled = ''context canceled''"
| "Error context_DeadlineExceeded = ''context deadline exceeded''"
| "Error (status_Error c msg) = ''rpc error: code = '' @ codes_String c @ '' desc = '' @ msg"
| "Error (Wrapped msg e) = msg"
| "Error (OtherError msg) = msg"

fun errors_Is :: "error \<Rightarrow> error \<Rightarrow> bool" where
  "errors_Is (Wrapped msg e) target = (Wrapped msg e = target \<or> errors_Is e target)"
| "errors_Is e target = (e = target)"

text \<open>Lines 60 to 66: the error returned by the \<^verbatim>\<open>ctx.Done()\<close> branch for \<^verbatim>\<open>ctx.Err()\<close>.\<close>

definition ctx_done_error :: "error \<Rightarrow> error" where
  "ctx_done_error err =
     (if errors_Is err context_Canceled then status_Error codes_Canceled (Error err)
      else if errors_Is err context_DeadlineExceeded
      then status_Error codes_DeadlineExceeded (Error err)
      else err)"

subsection \<open>The relayed panic value\<close>

text \<open>
  Line 42: \<^verbatim>\<open>fmt.Sprintf("%+v\n\n%s", p, strings.TrimSpace(string(debug.Stack())))\<close>.
  A recovered value is known by its \<^verbatim>\<open>%+v\<close> rendering. A Go string is a sequence of
  bytes, and \<^verbatim>\<open>strings.TrimSpace\<close> removes from both ends the UTF-8 encodings of the
  runes for which \<^verbatim>\<open>unicode.IsSpace\<close> holds: U+0009 to U+000D, U+0020, U+0085, U+00A0,
  U+1680, U+2000 to U+200A, U+2028, U+2029, U+202F, U+205F and U+3000.
\<close>

definition white_space :: "string list" where
  "white_space =
     [[CHR 0x09], [CHR 0x0A], [CHR 0x0B], [CHR 0x0C], [CHR 0x0D], [CHR 0x20],
      [CHR 0xC2, CHR 0x85], [CHR 0xC2, CHR 0xA0], [CHR 0xE1, CHR 0x9A, CHR 0x80],
      [CHR 0xE2, CHR 0x80, CHR 0x80], [CHR 0xE2, CHR 0x80, CHR 0x81],
      [CHR 0xE2, CHR 0x80, CHR 0x82], [CHR 0xE2, CHR 0x80, CHR 0x83],
      [CHR 0xE2, CHR 0x80, CHR 0x84], [CHR 0xE2, CHR 0x80, CHR 0x85],
      [CHR 0xE2, CHR 0x80, CHR 0x86], [CHR 0xE2, CHR 0x80, CHR 0x87],
      [CHR 0xE2, CHR 0x80, CHR 0x88], [CHR 0xE2, CHR 0x80, CHR 0x89],
      [CHR 0xE2, CHR 0x80, CHR 0x8A], [CHR 0xE2, CHR 0x80, CHR 0xA8],
      [CHR 0xE2, CHR 0x80, CHR 0xA9], [CHR 0xE2, CHR 0x80, CHR 0xAF],
      [CHR 0xE2, CHR 0x81, CHR 0x9F], [CHR 0xE3, CHR 0x80, CHR 0x80]]"

text \<open>
  Removing, as long as there is one, the byte sequence of \<open>encs\<close> the string starts
  with. The end of a string is trimmed on the reversed string with the reversed
  sequences: no sequence of \<^verbatim>\<open>white_space\<close> is the start or the end of another one.
\<close>

function TrimPrefix :: "string list \<Rightarrow> string \<Rightarrow> string" where
  "TrimPrefix encs s =
     (case find (\<lambda>enc. enc \<noteq> [] \<and> take (length enc) s = enc) encs of
        None \<Rightarrow> s
      | Some enc \<Rightarrow> TrimPrefix encs (drop (length enc) s))"
  by pat_completeness auto
termination
proof (relation "measure (\<lambda>(encs, s). length s)")
  show "wf (measure (\<lambda>(encs, s). length s))" by simp
next
  fix encs :: "string list" and s enc :: string
  assume "find (\<lambda>enc. enc \<noteq> [] \<and> take (length enc) s = enc) encs = Some enc"
  then have ne: "enc \<noteq> []" and tk: "take (length enc) s = enc"
    by (auto simp: find_Some_iff)
  from tk have "length enc \<le> length s"
    by (metis length_take min.cobounded1)
  with ne show "((encs, drop (length enc) s), (encs, s)) \<in> measure (\<lambda>(encs, s). length s)"
    by (cases enc) auto
qed

declare TrimPrefix.simps [simp del]

definition TrimSpace :: "string \<Rightarrow> string" where
  "TrimSpace s = rev (TrimPrefix (map rev white_space) (rev (TrimPrefix white_space s)))"

text \<open>A byte that occurs in the encoding of some white-space rune.\<close>

definition space_byte :: "char \<Rightarrow> bool" where
  "space_byte ch = (\<exists>enc\<in>set white_space. ch \<in> set enc)"

definition Sprintf_panic :: "string \<Rightarrow> string \<Rightarrow> string" where
  "Sprintf_panic p trace = p @ [CHR 0x0A, CHR 0x0A] @ trace"

subsection \<open>One invocation as a transition system\<close>

text \<open>
  What a call of \<^verbatim>\<open>handler(ctx, req)\<close> does: it returns a pair, it panics, or it does
  not come back (yet). \<^verbatim>\<open>Panics p\<close> carries the argument of \<^verbatim>\<open>panic\<close>:
  \<^verbatim>\<open>None\<close> for \<^verbatim>\<open>panic(nil)\<close>, \<^verbatim>\<open>Some v\<close> for a non-nil value rendered as \<open>v\<close>.
  The handler is given the context, so its behaviour may depend on whether \<^verbatim>\<open>ctx.Done()\<close>
  has fired (\<^verbatim>\<open>ctx.Err()\<close> is \<^verbatim>\<open>None\<close> until then). \<^verbatim>\<open>Stack\<close> is what
  \<^verbatim>\<open>debug.Stack()\<close> returns in the worker goroutine. \<^verbatim>\<open>panicnil\<close> is the setting of
  the Go runtime for \<^verbatim>\<open>panic(nil)\<close>: true for a program built as Go 1.20 or older, or run
  with \<^verbatim>\<open>GODEBUG=panicnil=1\<close>; false otherwise, which is the default from Go 1.21.
\<close>

datatype 'r handler_result =
    Returns "'r option" "error option"
  | Panics "string option"
  | Blocks

record ('q, 'r) call =
  req :: 'q
  handler :: "error option \<Rightarrow> 'q \<Rightarrow> 'r handler_result"
  Stack :: string
  panicnil :: bool

text \<open>
  What \<^verbatim>\<open>recover()\<close> yields in a deferred function after \<^verbatim>\<open>panic(p)\<close>: the value
  \<open>p\<close> when it is not \<^verbatim>\<open>nil\<close>; for \<^verbatim>\<open>panic(nil)\<close> the runtime substitutes a
  \<^verbatim>\<open>*runtime.PanicNilError\<close>, whose rendering is its message, unless \<^verbatim>\<open>panicnil\<close>
  is set, and then \<^verbatim>\<open>recover()\<close> yields \<^verbatim>\<open>nil\<close>.
\<close>

definition PanicNilError :: string where
  "PanicNilError = ''panic called with nil argument''"

definition gopanic :: "bool \<Rightarrow> string option \<Rightarrow> string option" where
  "gopanic nil_allowed p =
     (case p of
        Some v \<Rightarrow> Some v
      | None \<Rightarrow> if nil_allowed then None else Some PanicNilError)"

text \<open>How the wrapper ends: a normal return of \<^verbatim>\<open>(resp, err)\<close>, or \<^verbatim>\<open>panic(p)\<close>.\<close>

datatype 'r outcome = Returned "'r option" "error option" | Panicked string

text \<open>
  The program points of the worker goroutine (lines 38 to 50). The deferred calls run in
  reverse order: first \<^verbatim>\<open>lock.Unlock()\<close>, then the function that calls \<^verbatim>\<open>recover()\<close>;
  both carry what \<^verbatim>\<open>recover()\<close> will yield (\<^verbatim>\<open>None\<close> also when the body returned
  normally). The assignment of line 48 stores \<^verbatim>\<open>resp\<close>, then \<^verbatim>\<open>err\<close>.
\<close>

datatype 'r worker =
    W_Lock
  | W_Handler
  | W_AssignResp "'r option" "error option"
  | W_AssignErr "error option"
  | W_CloseDone
  | W_DeferUnlock "string option"
  | W_DeferRecover "string option"
  | W_Send string
  | W_Exit

text \<open>
  The program points of the supervising (caller's) goroutine from the \<^verbatim>\<open>select\<close> of line
  52 on: the lock and the read of the completion branch, its deferred \<^verbatim>\<open>lock.Unlock()\<close>,
  the deferred \<^verbatim>\<open>cancel()\<close> of line 30, and the end of the call.
\<close>

datatype 'r super =
    S_Select
  | S_Lock
  | S_Return
  | S_DeferUnlock "'r outcome"
  | S_DeferCancel "'r outcome"
  | S_Done "'r outcome"

text \<open>
  The variables of one invocation. \<^verbatim>\<open>ctx_Err\<close> is \<^verbatim>\<open>ctx.Err()\<close> of the derived
  context: \<^verbatim>\<open>None\<close> while \<^verbatim>\<open>ctx.Done()\<close> is open. \<^verbatim>\<open>done_closed\<close> says whether the
  channel \<^verbatim>\<open>done\<close> is closed; \<^verbatim>\<open>panicChan\<close> is the buffer of the channel of capacity 1.
\<close>

record 'r state =
  ctx_Err :: "error option"
  resp :: "'r option"
  err :: "error option"
  lock :: bool
  done_closed :: bool
  panicChan :: "string list"
  worker :: "'r worker"
  super :: "'r super"

text \<open>
  The state after line 37 and the \<^verbatim>\<open>go\<close> statement, for the value \<open>ce\<close> of
  \<^verbatim>\<open>ctx.Err()\<close> at that moment.
\<close>

definition init :: "error option \<Rightarrow> 'r state" where
  "init ce = \<lparr>ctx_Err = ce, resp = None, err = None, lock = False, done_closed = False,
              panicChan = [], worker = W_Lock, super = S_Select\<rparr>"

text \<open>
  One invocation of the closure that \<^verbatim>\<open>UnaryTimeoutInterceptor(timeout)\<close> returns,
  lines 28 to 37 and the \<^verbatim>\<open>go\<close> statement of line 38. The closure is a function of
  the captured variable \<^verbatim>\<open>timeout\<close> as the call finds it and of what the call is
  given: the registry at that moment, the inbound context (its \<^verbatim>\<open>Err()\<close>) and the
  info. It gives the value the captured variable has afterwards (line 28 assigns to it)
  and the state in which the worker and the supervisor start. \<^verbatim>\<open>context.WithTimeout\<close>
  of line 29 is a parameter: a function from the inbound context and the timeout to the
  value of \<^verbatim>\<open>ctx.Err()\<close> of the derived context when the call returns (the derived
  context may be done from the start). The rest of the body is the transition system
  below: \<^verbatim>\<open>worker_step\<close> is the goroutine of lines 38 to 50, \<^verbatim>\<open>select_case\<close> and
  \<^verbatim>\<open>super_step\<close> are lines 52 to 67 with the deferred calls of lines 30 and 57.
\<close>

definition UnaryTimeoutInterceptor ::
  "(error option \<Rightarrow> duration \<Rightarrow> error option) \<Rightarrow> duration \<Rightarrow>
   registry \<times> error option \<times> UnaryServerInfo \<Rightarrow> duration \<times> 'r state" where
  "UnaryTimeoutInterceptor WithTimeout timeout call =
     (case call of (methodTimeout, ctx, info) \<Rightarrow>
        (let timeout' = getTimeoutByUnaryServerInfo methodTimeout info timeout
         in (timeout', init (WithTimeout ctx timeout'))))"

text \<open>
  Calling a closure several times in a row: each call finds the captured variable as the
  call before left it. For every call the list gives the captured variable as the call
  found it, and what the call gave.
\<close>

fun invocations :: "('s \<Rightarrow> 'a \<Rightarrow> 's \<times> 'b) \<Rightarrow> 's \<Rightarrow> 'a list \<Rightarrow> ('s \<times> 'b) list" where
  "invocations closure captured [] = []"
| "invocations closure captured (x # xs) =
     (captured, snd (closure captured x)) # invocations closure (fst (closure captured x)) xs"

text \<open>
  A schedule is a list of actions: a step of the worker, a step of the supervisor, the
  \<^verbatim>\<open>select\<close> taking one of its cases, and the environment closing \<^verbatim>\<open>ctx.Done()\<close> with
  an error (the timer of the deadline, or the cancellation of the inbound context). A
  step that cannot be taken (a blocked lock, send or receive, a handler that has not come
  back, a goroutine that has ended) is \<^verbatim>\<open>None\<close>.
\<close>

datatype branch = B_panicChan | B_done | B_ctxDone

datatype action = WorkerStep | SuperStep | SelectCase branch | CtxDone error

definition worker_step :: "('q, 'r) call \<Rightarrow> 'r state \<Rightarrow> 'r state option" where
  "worker_step c s =
     (case worker s of
        W_Lock \<Rightarrow> if lock s then None else Some (s\<lparr>lock := True, worker := W_Handler\<rparr>)
      | W_Handler \<Rightarrow>
          (case handler c (ctx_Err s) (req c) of
             Returns r e \<Rightarrow> Some (s\<lparr>worker := W_AssignResp r e\<rparr>)
           | Panics p \<Rightarrow> Some (s\<lparr>worker := W_DeferUnlock (gopanic (panicnil c) p)\<rparr>)
           | Blocks \<Rightarrow> None)
      | W_AssignResp r e \<Rightarrow> Some (s\<lparr>resp := r, worker := W_AssignErr e\<rparr>)
      | W_AssignErr e \<Rightarrow> Some (s\<lparr>err := e, worker := W_CloseDone\<rparr>)
      | W_CloseDone \<Rightarrow>
          if done_closed s
          then Some (s\<lparr>worker := W_DeferUnlock (Some ''close of closed channel'')\<rparr>)
          else Some (s\<lparr>done_closed := True, worker := W_DeferUnlock None\<rparr>)
      | W_DeferUnlock p \<Rightarrow> Some (s\<lparr>lock := False, worker := W_DeferRecover p\<rparr>)
      | W_DeferRecover p \<Rightarrow>
          (case p of
             None \<Rightarrow> Some (s\<lparr>worker := W_Exit\<rparr>)
           | Some v \<Rightarrow> Some (s\<lparr>worker := W_Send (Sprintf_panic v (TrimSpace (Stack c)))\<rparr>))
      | W_Send msg \<Rightarrow>
          if length (panicChan s) < 1
          then Some (s\<lparr>panicChan := panicChan s @ [msg], worker := W_Exit\<rparr>)
          else None
      | W_Exit \<Rightarrow> None)"

definition select_case :: "branch \<Rightarrow> 'r state \<Rightarrow> 'r state option" where
  "select_case b s =
     (case super s of
        S_Select \<Rightarrow>
          (case b of
             B_panicChan \<Rightarrow>
               (case panicChan s of
                  [] \<Rightarrow> None
                | p # rest \<Rightarrow> Some (s\<lparr>panicChan := rest, super := S_DeferCancel (Panicked p)\<rparr>))
           | B_done \<Rightarrow> if done_closed s then Some (s\<lparr>super := S_Lock\<rparr>) else None
           | B_ctxDone \<Rightarrow>
               (case ctx_Err s of
                  None \<Rightarrow> None
                | Some e \<Rightarrow>
                    Some (s\<lparr>super := S_DeferCancel (Returned None (Some (ctx_done_error e)))\<rparr>)))
      | _ \<Rightarrow> None)"

text \<open>The deferred \<^verbatim>\<open>cancel()\<close>: it closes \<^verbatim>\<open>ctx.Done()\<close> unless it is closed already.\<close>

definition cancel :: "error option \<Rightarrow> error option" where
  "cancel ce = (case ce of None \<Rightarrow> Some context_Canceled | Some e \<Rightarrow> Some e)"

definition super_step :: "'r state \<Rightarrow> 'r state option" where
  "super_step s =
     (case super s of
        S_Select \<Rightarrow> None
      | S_Lock \<Rightarrow> if lock s then None else Some (s\<lparr>lock := True, super := S_Return\<rparr>)
      | S_Return \<Rightarrow> Some (s\<lparr>super := S_DeferUnlock (Returned (resp s) (err s))\<rparr>)
      | S_DeferUnlock out \<Rightarrow> Some (s\<lparr>lock := False, super := S_DeferCancel out\<rparr>)
      | S_DeferCancel out \<Rightarrow> Some (s\<lparr>ctx_Err := cancel (ctx_Err s), super := S_Done out\<rparr>)
      | S_Done out \<Rightarrow> None)"

definition ctx_fire :: "error \<Rightarrow> 'r state \<Rightarrow> 'r state option" where
  "ctx_fire e s = (case ctx_Err s of None \<Rightarrow> Some (s\<lparr>ctx_Err := Some e\<rparr>) | Some _ \<Rightarrow> None)"

definition step :: "('q, 'r) call \<Rightarrow> action \<Rightarrow> 'r state \<Rightarrow> 'r state option" where
  "step c a s =
     (case a of
        WorkerStep \<Rightarrow> worker_step c s
      | SuperStep \<Rightarrow> super_step s
      | SelectCase b \<Rightarrow> select_case b s
      | CtxDone e \<Rightarrow> ctx_fire e s)"

fun run :: "('q, 'r) call \<Rightarrow> action list \<Rightarrow> 'r state \<Rightarrow> 'r state option" where
  "run c [] s = Some s"
| "run c (a # as) s = (case step c a s of None \<Rightarrow> None | Some s' \<Rightarrow> run c as s')"

text \<open>Whether any action can be taken in a state.\<close>

definition can_step :: "('q, 'r) call \<Rightarrow> 'r state \<Rightarrow> bool" where
  "can_step c s =
     (worker_step c s \<noteq> None \<or> super_step s \<noteq> None \<or> select_case B_panicChan s \<noteq> None
      \<or> select_case B_done s \<noteq> None \<or> select_case B_ctxDone s \<noteq> None \<or> ctx_Err s = None)"

text \<open>The outcome the supervisor holds once it is past its \<^verbatim>\<open>return\<close> or \<^verbatim>\<open>panic\<close>.\<close>

fun pending_outcome :: "'r super \<Rightarrow> 'r outcome option" where
  "pending_outcome (S_DeferUnlock out) = Some out"
| "pending_outcome (S_DeferCancel out) = Some out"
| "pending_outcome (S_Done out) = Some out"
| "pending_outcome _ = None"

subsection \<open>Counting events of a run\<close>

fun count_steps ::
  "(action \<Rightarrow> 'r state \<Rightarrow> bool) \<Rightarrow> ('q, 'r) call \<Rightarrow> action list \<Rightarrow> 'r state \<Rightarrow> nat" where
  "count_steps P c [] s = 0"
| "count_steps P c (a # as) s =
     (case step c a s of
        None \<Rightarrow> 0
      | Some s' \<Rightarrow> (if P a s then 1 else 0) + count_steps P c as s')"

definition is_select :: "action \<Rightarrow> 'r state \<Rightarrow> bool" where
  "is_select a s = (case a of SelectCase b \<Rightarrow> True | _ \<Rightarrow> False)"

definition is_send :: "action \<Rightarrow> 'r state \<Rightarrow> bool" where
  "is_send a s = (a = WorkerStep \<and> (case worker s of W_Send msg \<Rightarrow> True | _ \<Rightarrow> False))"

definition is_write_resp :: "action \<Rightarrow> 'r state \<Rightarrow> bool" where
  "is_write_resp a s =
     (a = WorkerStep \<and> (case worker s of W_AssignResp r e \<Rightarrow> True | _ \<Rightarrow> False))"

definition is_write_err :: "action \<Rightarrow> 'r state \<Rightarrow> bool" where
  "is_write_err a s = (a = WorkerStep \<and> (case worker s of W_AssignErr e \<Rightarrow> True | _ \<Rightarrow> False))"

definition is_read :: "action \<Rightarrow> 'r state \<Rightarrow> bool" where
  "is_read a s = (a = SuperStep \<and> (case super s of S_Return \<Rightarrow> True | _ \<Rightarrow> False))"

subsection \<open>Measure and invariant\<close>

text \<open>Every action moves a goroutine forward or closes \<^verbatim>\<open>ctx.Done()\<close>.\<close>

fun wrank :: "'r worker \<Rightarrow> nat" where
  "wrank W_Lock = 8"
| "wrank W_Handler = 7"
| "wrank (W_AssignResp r e) = 6"
| "wrank (W_AssignErr e) = 5"
| "wrank W_CloseDone = 4"
| "wrank (W_DeferUnlock p) = 3"
| "wrank (W_DeferRecover p) = 2"
| "wrank (W_Send msg) = 1"
| "wrank W_Exit = 0"

fun srank :: "'r super \<Rightarrow> nat" where
  "srank S_Select = 5"
| "srank S_Lock = 4"
| "srank S_Return = 3"
| "srank (S_DeferUnlock out) = 2"
| "srank (S_DeferCancel out) = 1"
| "srank (S_Done out) = 0"

definition weight :: "'r state \<Rightarrow> nat" where
  "weight s = wrank (worker s) + srank (super s) + (case ctx_Err s of None \<Rightarrow> 1 | Some e \<Rightarrow> 0)"

text \<open>
  \<^verbatim>\<open>called c ce hr\<close>: the handler gave \<open>hr\<close> when it was called with the context as it
  was then, which is either still open or in the state \<open>ce\<close> it has now.
\<close>

definition called :: "('q, 'r) call \<Rightarrow> error option \<Rightarrow> 'r handler_result \<Rightarrow> bool" where
  "called c ce hr = (handler c None (req c) = hr \<or> handler c ce (req c) = hr)"

definition panicked :: "('q, 'r) call \<Rightarrow> error option \<Rightarrow> string option \<Rightarrow> bool" where
  "panicked c ce p = (\<exists>a. called c ce (Panics a) \<and> p = gopanic (panicnil c) a)"

definition relayed :: "('q, 'r) call \<Rightarrow> error option \<Rightarrow> string \<Rightarrow> bool" where
  "relayed c ce msg =
     (\<exists>v. panicked c ce (Some v) \<and> msg = Sprintf_panic v (TrimSpace (Stack c)))"

definition worker_holds :: "'r worker \<Rightarrow> bool" where
  "worker_holds w =
     (case w of W_Handler \<Rightarrow> True | W_AssignResp r e \<Rightarrow> True | W_AssignErr e \<Rightarrow> True
      | W_CloseDone \<Rightarrow> True | W_DeferUnlock p \<Rightarrow> True | _ \<Rightarrow> False)"

definition super_holds :: "'r super \<Rightarrow> bool" where
  "super_holds u = (case u of S_Return \<Rightarrow> True | S_DeferUnlock out \<Rightarrow> True | _ \<Rightarrow> False)"

definition worker_inv :: "('q, 'r) call \<Rightarrow> 'r state \<Rightarrow> bool" where
  "worker_inv c s =
     (case worker s of
        W_Lock \<Rightarrow> \<not> done_closed s \<and> panicChan s = []
      | W_Handler \<Rightarrow> \<not> done_closed s \<and> panicChan s = []
      | W_AssignResp r e \<Rightarrow>
          \<not> done_closed s \<and> panicChan s = [] \<and> called c (ctx_Err s) (Returns r e)
      | W_AssignErr e \<Rightarrow>
          \<not> done_closed s \<and> panicChan s = [] \<and> called c (ctx_Err s) (Returns (resp s) e)
      | W_CloseDone \<Rightarrow>
          \<not> done_closed s \<and> panicChan s = [] \<and> called c (ctx_Err s) (Returns (resp s) (err s))
      | W_DeferUnlock p \<Rightarrow>
          panicChan s = [] \<and>
          (if done_closed s then p = None \<and> called c (ctx_Err s) (Returns (resp s) (err s))
           else panicked c (ctx_Err s) p)
      | W_DeferRecover p \<Rightarrow>
          panicChan s = [] \<and>
          (if done_closed s then p = None \<and> called c (ctx_Err s) (Returns (resp s) (err s))
           else panicked c (ctx_Err s) p)
      | W_Send msg \<Rightarrow> \<not> done_closed s \<and> panicChan s = [] \<and> relayed c (ctx_Err s) msg
      | W_Exit \<Rightarrow>
          (if done_closed s
           then panicChan s = [] \<and> called c (ctx_Err s) (Returns (resp s) (err s))
           else (\<exists>p. called c (ctx_Err s) (Panics p))
             \<and> (panicChan s = [] \<or> (\<exists>msg. panicChan s = [msg] \<and> relayed c (ctx_Err s) msg))))"

definition outcome_inv :: "('q, 'r) call \<Rightarrow> 'r state \<Rightarrow> 'r outcome \<Rightarrow> bool" where
  "outcome_inv c s out =
     (case out of
        Panicked msg \<Rightarrow>
          \<not> done_closed s \<and> panicChan s = [] \<and> worker s = W_Exit \<and> relayed c (ctx_Err s) msg
      | Returned r e \<Rightarrow>
          (done_closed s \<and> r = resp s \<and> e = err s)
          \<or> (r = None \<and> (\<exists>ce. ctx_Err s = Some ce \<and> e = Some (ctx_done_error ce))))"

definition super_inv :: "('q, 'r) call \<Rightarrow> 'r state \<Rightarrow> bool" where
  "super_inv c s =
     (case super s of
        S_Select \<Rightarrow> True
      | S_Lock \<Rightarrow> done_closed s
      | S_Return \<Rightarrow> done_closed s
      | S_DeferUnlock out \<Rightarrow> done_closed s \<and> out = Returned (resp s) (err s)
      | S_DeferCancel out \<Rightarrow> outcome_inv c s out
      | S_Done out \<Rightarrow> outcome_inv c s out \<and> ctx_Err s \<noteq> None)"

definition lock_inv :: "'r state \<Rightarrow> bool" where
  "lock_inv s =
     ((lock s \<longleftrightarrow> worker_holds (worker s) \<or> super_holds (super s))
      \<and> \<not> (worker_holds (worker s) \<and> super_holds (super s)))"

definition inv :: "('q, 'r) call \<Rightarrow> 'r state \<Rightarrow> bool" where
  "inv c s = (worker_inv c s \<and> super_inv c s \<and> lock_inv s)"

text \<open>
  \<^verbatim>\<open>returning r e\<close>: the supervisor is on the completion branch and the pair it reads or
  has read is \<open>(r, e)\<close>. \<^verbatim>\<open>resp_written\<close> and \<^verbatim>\<open>pair_written\<close>: the assignment of line 48
  has stored \<^verbatim>\<open>resp\<close>, and both variables. \<^verbatim>\<open>untouched\<close>: as long as the worker has
  not started on the second assignment, both variables are \<^verbatim>\<open>nil\<close>.
\<close>

definition returning :: "'r option \<Rightarrow> error option \<Rightarrow> 'r state \<Rightarrow> bool" where
  "returning r e s =
     (done_closed s \<and> resp s = r \<and> err s = e \<and>
      (case super s of
         S_Select \<Rightarrow> False
       | S_Lock \<Rightarrow> True
       | S_Return \<Rightarrow> True
       | S_DeferUnlock out \<Rightarrow> out = Returned r e
       | S_DeferCancel out \<Rightarrow> out = Returned r e
       | S_Done out \<Rightarrow> out = Returned r e))"

definition resp_written :: "'r state \<Rightarrow> bool" where
  "resp_written s =
     (done_closed s \<or> (case worker s of W_AssignErr e \<Rightarrow> True | W_CloseDone \<Rightarrow> True | _ \<Rightarrow> False))"

definition pair_written :: "'r state \<Rightarrow> bool" where
  "pair_written s = (done_closed s \<or> (case worker s of W_CloseDone \<Rightarrow> True | _ \<Rightarrow> False))"

definition untouched :: "'r state \<Rightarrow> bool" where
  "untouched s =
     (done_closed s
      \<or> (case worker s of W_AssignErr e \<Rightarrow> True | W_CloseDone \<Rightarrow> True | _ \<Rightarrow> False)
      \<or> (resp s = None \<and> err s = None))"

text \<open>
  After the handler has panicked and \<^verbatim>\<open>recover()\<close> is going to yield a value rendered as
  \<open>v\<close> (\<^verbatim>\<open>relaying\<close>), and after it has panicked and \<^verbatim>\<open>recover()\<close> is going to
  yield \<^verbatim>\<open>nil\<close> (\<^verbatim>\<open>lost\<close>): where the worker can be, what the buffer of
  \<^verbatim>\<open>panicChan\<close> can hold and which panic the supervisor can have received.
\<close>

definition relaying :: "('q, 'r) call \<Rightarrow> string \<Rightarrow> 'r state \<Rightarrow> bool" where
  "relaying c v s =
     (\<not> done_closed s
      \<and> (case worker s of
           W_DeferUnlock p \<Rightarrow> p = Some v \<and> panicChan s = []
         | W_DeferRecover p \<Rightarrow> p = Some v \<and> panicChan s = []
         | W_Send msg \<Rightarrow> msg = Sprintf_panic v (TrimSpace (Stack c)) \<and> panicChan s = []
         | W_Exit \<Rightarrow> panicChan s = [] \<or> panicChan s = [Sprintf_panic v (TrimSpace (Stack c))]
         | _ \<Rightarrow> False)
      \<and> (case pending_outcome (super s) of
           Some (Panicked msg) \<Rightarrow> msg = Sprintf_panic v (TrimSpace (Stack c))
         | _ \<Rightarrow> True))"

definition lost :: "'r state \<Rightarrow> bool" where
  "lost s =
     (\<not> done_closed s \<and> panicChan s = []
      \<and> (case worker s of
           W_DeferUnlock p \<Rightarrow> p = None
         | W_DeferRecover p \<Rightarrow> p = None
         | W_Exit \<Rightarrow> True
         | _ \<Rightarrow> False)
      \<and> (case pending_outcome (super s) of Some (Panicked msg) \<Rightarrow> False | _ \<Rightarrow> True))"

subsection \<open>Example invocations\<close>

definition c_ok :: "(string, string) call" where
  "c_ok = \<lparr>req = ''ping'', handler = (\<lambda>ctx rq. Returns (Some ''ok'') None),
           Stack = ''goroutine 7 [running]:'', panicnil = False\<rparr>"

definition c_boom :: "(string, string) call" where
  "c_boom = \<lparr>req = ''ping'', handler = (\<lambda>ctx rq. Panics (Some ''boom'')),
             Stack = ''goroutine 7 [running]:'', panicnil = False\<rparr>"

text \<open>
  A handler that calls \<^verbatim>\<open>panic(nil)\<close>, under the default of Go 1.21 and later, and
  under the older rule.
\<close>

definition c_nil :: "(string, string) call" where
  "c_nil = \<lparr>req = ''ping'', handler = (\<lambda>ctx rq. Panics None),
            Stack = ''goroutine 7 [running]:'', panicnil = False\<rparr>"

definition c_nil_legacy :: "(string, string) call" where
  "c_nil_legacy = \<lparr>req = ''ping'', handler = (\<lambda>ctx rq. Panics None),
                   Stack = ''goroutine 7 [running]:'', panicnil = True\<rparr>"

text \<open>
  A handler that honours the context: it does not come back while \<^verbatim>\<open>ctx.Done()\<close> is
  open, and panics with the context's error once it has fired.
\<close>

definition c_late :: "(string, string) call" where
  "c_late = \<lparr>req = ''ping'',
             handler = (\<lambda>ctx rq. case ctx of None \<Rightarrow> Blocks | Some e \<Rightarrow> Panics (Some (Error e))),
             Stack = ''goroutine 7 [running]:'', panicnil = False\<rparr>"

text \<open>Two routes, one with an override of 5 in the registry, and a server without strategy.\<close>

definition registry_A :: registry where
  "registry_A = Map.empty(''/svc/A'' \<mapsto> Duration 5)"

definition call_A :: "registry \<times> error option \<times> UnaryServerInfo" where
  "call_A = (registry_A, None, \<lparr>Server = PlainServer, FullMethod = ''/svc/A''\<rparr>)"

definition call_B :: "registry \<times> error option \<times> UnaryServerInfo" where
  "call_B = (registry_A, None, \<lparr>Server = PlainServer, FullMethod = ''/svc/B''\<rparr>)"

section \<open>Properties of timeout resolution\<close>

text \<open>
  C4. Resolution is a total function of the registry, the info and the default: a server
  with a strategy gets the strategy's answer whatever the registry holds; otherwise a
  registry entry that is a \<^verbatim>\<open>time.Duration\<close> is returned; otherwise (no entry, or an
  entry of another type) the default is returned.
\<close>

theorem C4_resolution_priority:
  "getTimeoutByUnaryServerInfo m \<lparr>Server = TimeoutStrategy ts, FullMethod = route\<rparr> d = ts route d
   \<and> getTimeoutByUnaryServerInfo (m(route \<mapsto> Duration t)) \<lparr>Server = PlainServer, FullMethod = route\<rparr> d = t
   \<and> getTimeoutByUnaryServerInfo (m(route \<mapsto> Other x)) \<lparr>Server = PlainServer, FullMethod = route\<rparr> d = d
   \<and> getTimeoutByUnaryServerInfo (m(route := None)) \<lparr>Server = PlainServer, FullMethod = route\<rparr> d = d
   \<and> (\<exists>r. getTimeoutByUnaryServerInfo m info d = r
          \<and> (r = d \<or> (\<exists>ts. Server info = TimeoutStrategy ts \<and> r = ts (FullMethod info) d)
                    \<or> (Server info = PlainServer \<and> m (FullMethod info) = Some (Duration r))))"
  by (auto simp: getTimeoutByUnaryServerInfo_def Load_def split: server.splits option.splits any.splits)

theorem C4_resolution_priority_witness:
  "getTimeoutByUnaryServerInfo (Map.empty(''/svc/A'' \<mapsto> Duration 7))
      \<lparr>Server = TimeoutStrategy (\<lambda>r d. d + 1), FullMethod = ''/svc/A''\<rparr> 5 = 6
   \<and> getTimeoutByUnaryServerInfo (Map.empty(''/svc/A'' \<mapsto> Duration 7))
      \<lparr>Server = PlainServer, FullMethod = ''/svc/A''\<rparr> 5 = 7
   \<and> getTimeoutByUnaryServerInfo (Map.empty(''/svc/A'' \<mapsto> Other ''x''))
      \<lparr>Server = PlainServer, FullMethod = ''/svc/A''\<rparr> 5 = 5
   \<and> getTimeoutByUnaryServerInfo (Map.empty(''/svc/A'' := None))
      \<lparr>Server = PlainServer, FullMethod = ''/svc/A''\<rparr> 5 = 5"
  using C4_resolution_priority [of "Map.empty(''/svc/A'' \<mapsto> Duration 7)" "\<lambda>r d. d + 1" "''/svc/A''" 5 7 "''x''"]
  by simp

text \<open>
  C6. Two registrations for one route, \<open>d1\<close> then \<open>d2\<close>: every later resolution for that
  route on a server without a strategy returns \<open>d2\<close>, whatever the default and whatever
  the registry held before.
\<close>

theorem C6_last_write_wins:
  "getTimeoutByUnaryServerInfo
     (SetTimeoutForFullMethod route d2 (SetTimeoutForFullMethod route d1 m))
     \<lparr>Server = PlainServer, FullMethod = route\<rparr> d = d2"
  by (simp add: getTimeoutByUnaryServerInfo_def SetTimeoutForFullMethod_def Store_def Load_def)

theorem C6_last_write_wins_witness:
  "getTimeoutByUnaryServerInfo
     (SetTimeoutForFullMethod ''/svc/A'' 20 (SetTimeoutForFullMethod ''/svc/A'' 10 Map.empty))
     \<lparr>Server = PlainServer, FullMethod = ''/svc/A''\<rparr> 5 = 20"
  using C6_last_write_wins [of "''/svc/A''" 20 10 Map.empty 5] by simp

lemma invocations_first:
  "xs \<noteq> [] \<Longrightarrow> fst (invocations closure captured xs ! 0) = captured"
  by (cases xs) simp_all

lemma invocations_next:
  "Suc n < length xs \<Longrightarrow>
   fst (invocations closure captured xs ! Suc n) =
     fst (closure (fst (invocations closure captured xs ! n)) (xs ! n))"
proof (induction xs arbitrary: captured n)
  case Nil
  then show ?case by simp
next
  case (Cons x xs)
  show ?case
  proof (cases n)
    case 0
    with Cons.prems show ?thesis by (cases xs) simp_all
  next
    case (Suc k)
    with Cons.prems have "Suc k < length xs" by simp
    from Cons.IH [OF this] Suc show ?thesis by simp
  qed
qed

lemma invocations_result:
  "n < length xs \<Longrightarrow>
   snd (invocations closure captured xs ! n) =
     snd (closure (fst (invocations closure captured xs ! n)) (xs ! n))"
proof (induction xs arbitrary: captured n)
  case Nil
  then show ?case by simp
next
  case (Cons x xs)
  show ?case
  proof (cases n)
    case 0
    then show ?thesis by simp
  next
    case (Suc k)
    with Cons.prems have "k < length xs" by simp
    from Cons.IH [OF this] Suc show ?thesis by simp
  qed
qed

text \<open>
  C5. In a sequence of invocations of the closure that \<^verbatim>\<open>UnaryTimeoutInterceptor(d)\<close>
  returned, the first invocation finds \<open>d\<close> in the captured variable and hands it to
  the resolver as the default; invocation \<open>n + 1\<close> finds there, and hands to the
  resolver, the timeout that invocation \<open>n\<close> resolved for its own route; and it derives
  its context with the timeout resolved from that default.
\<close>

theorem C5_default_drifts:
  assumes "Suc n < length calls"
  shows "fst ((invocations (UnaryTimeoutInterceptor W) d calls :: (duration \<times> 'r state) list) ! 0) = d
       \<and> fst ((invocations (UnaryTimeoutInterceptor W) d calls :: (duration \<times> 'r state) list) ! Suc n) =
           getTimeoutByUnaryServerInfo (fst (calls ! n)) (snd (snd (calls ! n)))
             (fst ((invocations (UnaryTimeoutInterceptor W) d calls :: (duration \<times> 'r state) list) ! n))
       \<and> snd ((invocations (UnaryTimeoutInterceptor W) d calls :: (duration \<times> 'r state) list) ! Suc n) =
           init (W (fst (snd (calls ! Suc n)))
             (getTimeoutByUnaryServerInfo (fst (calls ! Suc n)) (snd (snd (calls ! Suc n)))
               (fst ((invocations (UnaryTimeoutInterceptor W) d calls :: (duration \<times> 'r state) list) ! Suc n))))"
proof -
  have closure: "UnaryTimeoutInterceptor W t call =
      (getTimeoutByUnaryServerInfo (fst call) (snd (snd call)) t,
       init (W (fst (snd call)) (getTimeoutByUnaryServerInfo (fst call) (snd (snd call)) t)))"
    for t call
    by (cases call) (simp add: UnaryTimeoutInterceptor_def Let_def)
  from assms have ne: "calls \<noteq> []" and n: "n < length calls" by auto
  show ?thesis
    using assms
    by (simp add: invocations_first [OF ne] invocations_next invocations_result closure)
qed

text \<open>
  The factory default is 1; route A has the override 5 and route B has none. After a call
  to A, the calls to B find 5 in the captured variable, resolve to 5, and derive their
  context with 5.
\<close>

theorem C5_default_drifts_witness:
  "map fst (invocations (UnaryTimeoutInterceptor (\<lambda>ctx timeout. ctx)) 1 [call_A, call_B, call_B]
          :: (duration \<times> string state) list)
     = [1, 5, 5]
   \<and> fst ((invocations (UnaryTimeoutInterceptor (\<lambda>ctx timeout. ctx)) 1 [call_A, call_B, call_B]
          :: (duration \<times> string state) list) ! Suc 0) =
       getTimeoutByUnaryServerInfo (fst ([call_A, call_B, call_B] ! 0))
         (snd (snd ([call_A, call_B, call_B] ! 0)))
         (fst ((invocations (UnaryTimeoutInterceptor (\<lambda>ctx timeout. ctx)) 1 [call_A, call_B, call_B]
          :: (duration \<times> string state) list) ! 0))
   \<and> getTimeoutByUnaryServerInfo registry_A \<lparr>Server = PlainServer, FullMethod = ''/svc/B''\<rparr> 5 = 5"
proof -
  have h: "Suc 0 < length [call_A, call_B, call_B]" by simp
  have run: "map fst (invocations (UnaryTimeoutInterceptor (\<lambda>ctx timeout. ctx)) 1 [call_A, call_B, call_B]
          :: (duration \<times> string state) list)
      = [1, 5, 5]"
    by (simp add: UnaryTimeoutInterceptor_def getTimeoutByUnaryServerInfo_def Load_def
        call_A_def call_B_def registry_A_def)
  note th = C5_default_drifts [OF h, of "\<lambda>ctx timeout. ctx" 1, where ?'r = string]
  from th have k: "fst ((invocations (UnaryTimeoutInterceptor (\<lambda>ctx timeout. ctx)) 1 [call_A, call_B, call_B]
          :: (duration \<times> string state) list) ! Suc 0) =
      getTimeoutByUnaryServerInfo (fst ([call_A, call_B, call_B] ! 0))
        (snd (snd ([call_A, call_B, call_B] ! 0)))
        (fst ((invocations (UnaryTimeoutInterceptor (\<lambda>ctx timeout. ctx)) 1 [call_A, call_B, call_B]
          :: (duration \<times> string state) list) ! 0))"
    by (elim conjE)
  have b: "getTimeoutByUnaryServerInfo registry_A \<lparr>Server = PlainServer, FullMethod = ''/svc/B''\<rparr> 5 = 5"
    by (simp add: getTimeoutByUnaryServerInfo_def Load_def registry_A_def)
  from run k b show ?thesis by (intro conjI)
qed

lemma called_mono:
  "called c ce hr \<Longrightarrow> ce = None \<or> ce' = ce \<Longrightarrow> called c ce' hr"
  by (auto simp: called_def)

lemma panicked_mono:
  "panicked c ce p \<Longrightarrow> ce = None \<or> ce' = ce \<Longrightarrow> panicked c ce' p"
  unfolding panicked_def using called_mono by blast

lemma calledI: "handler c ce (req c) = hr \<Longrightarrow> called c ce hr"
  by (simp add: called_def)

lemma panickedI: "handler c ce (req c) = Panics a \<Longrightarrow> panicked c ce (gopanic (panicnil c) a)"
  unfolding panicked_def using calledI by blast

lemma panicked_called: "panicked c ce p \<Longrightarrow> \<exists>a. called c ce (Panics a)"
  unfolding panicked_def by blast

lemma relayedI: "panicked c ce (Some v) \<Longrightarrow> relayed c ce (Sprintf_panic v (TrimSpace (Stack c)))"
  unfolding relayed_def by blast

lemma relayed_called: "relayed c ce msg \<Longrightarrow> \<exists>a. called c ce (Panics a)"
  unfolding relayed_def using panicked_called by blast

lemma relayed_mono:
  "relayed c ce msg \<Longrightarrow> ce = None \<or> ce' = ce \<Longrightarrow> relayed c ce' msg"
  unfolding relayed_def using panicked_mono by blast

lemma worker_inv_frame:
  assumes "worker_inv c s"
    and "ctx_Err s = None \<or> ctx_Err s' = ctx_Err s"
    and "worker s' = worker s" "done_closed s' = done_closed s" "panicChan s' = panicChan s"
    and "resp s' = resp s" "err s' = err s"
  shows "worker_inv c s'"
  using assms
  by (cases "worker s")
     (auto simp: worker_inv_def intro: called_mono relayed_mono panicked_mono split: if_splits)

lemma worker_inv_worker_step:
  "worker_inv c s \<Longrightarrow> worker_step c s = Some s' \<Longrightarrow> worker_inv c s'"
  by (cases "worker s")
     (auto simp: worker_inv_def worker_step_def
           intro: calledI panickedI relayedI dest: panicked_called relayed_called
           split: if_splits handler_result.splits option.splits)

lemma worker_inv_ctx_fire:
  "worker_inv c s \<Longrightarrow> ctx_fire e s = Some s' \<Longrightarrow> worker_inv c s'"
  by (rule worker_inv_frame [of c s s']) (auto simp: ctx_fire_def split: option.splits)

lemma worker_inv_super_step:
  "worker_inv c s \<Longrightarrow> super_step s = Some s' \<Longrightarrow> worker_inv c s'"
  by (rule worker_inv_frame [of c s s'])
     (auto simp: super_step_def cancel_def split: super.splits if_splits option.splits)

lemma worker_inv_select_case:
  "worker_inv c s \<Longrightarrow> select_case b s = Some s' \<Longrightarrow> worker_inv c s'"
  by (cases "super s"; cases b; cases "worker s")
     (auto simp: worker_inv_def select_case_def
           split: if_splits option.splits list.splits)

text \<open>What a step of the worker leaves alone.\<close>

lemma worker_step_frame:
  "worker_step c s = Some s' \<Longrightarrow> ctx_Err s' = ctx_Err s \<and> super s' = super s \<and> worker s \<noteq> W_Exit"
  by (cases "worker s")
     (auto simp: worker_step_def split: if_splits handler_result.splits option.splits)

lemma worker_step_after_close:
  "worker_inv c s \<Longrightarrow> worker_step c s = Some s' \<Longrightarrow> done_closed s \<Longrightarrow>
   done_closed s' \<and> resp s' = resp s \<and> err s' = err s \<and> panicChan s' = panicChan s"
  by (cases "worker s")
     (auto simp: worker_inv_def worker_step_def split: if_splits handler_result.splits option.splits)

lemma outcome_inv_worker_step:
  assumes "worker_inv c s" "worker_step c s = Some s'" "outcome_inv c s out"
  shows "outcome_inv c s' out"
proof (cases out)
  case (Returned r e)
  with assms show ?thesis
    using worker_step_frame [OF assms(2)] worker_step_after_close [OF assms(1,2)]
    by (auto simp: outcome_inv_def)
next
  case (Panicked msg)
  with assms show ?thesis
    using worker_step_frame [OF assms(2)] by (simp add: outcome_inv_def)
qed

lemma super_inv_worker_step:
  assumes "worker_inv c s" "worker_step c s = Some s'" "super_inv c s"
  shows "super_inv c s'"
  using assms worker_step_frame [OF assms(2)] worker_step_after_close [OF assms(1,2)]
    outcome_inv_worker_step [OF assms(1,2)]
  by (cases "super s") (auto simp: super_inv_def)

lemma outcome_inv_ctx_fire:
  "outcome_inv c s out \<Longrightarrow> ctx_fire e s = Some s' \<Longrightarrow> outcome_inv c s' out"
  by (cases out)
     (auto simp: outcome_inv_def ctx_fire_def split: option.splits intro: relayed_mono)

lemma super_inv_ctx_fire:
  "super_inv c s \<Longrightarrow> ctx_fire e s = Some s' \<Longrightarrow> super_inv c s'"
  using outcome_inv_ctx_fire [of c s _ e s']
  by (cases "super s") (auto simp: super_inv_def ctx_fire_def split: option.splits)

lemma super_inv_select_case:
  "worker_inv c s \<Longrightarrow> super_inv c s \<Longrightarrow> select_case b s = Some s' \<Longrightarrow> super_inv c s'"
  by (cases "super s"; cases b; cases "worker s")
     (auto simp: worker_inv_def super_inv_def outcome_inv_def select_case_def
           split: if_splits option.splits list.splits)

lemma outcome_inv_cancel:
  "outcome_inv c s out \<Longrightarrow> outcome_inv c (s\<lparr>ctx_Err := cancel (ctx_Err s), super := u\<rparr>) out"
  by (cases out)
     (auto simp: outcome_inv_def cancel_def split: option.splits intro: relayed_mono)

lemma super_inv_super_step:
  assumes "super_inv c s" "super_step s = Some s'"
  shows "super_inv c s'"
proof (cases "super s")
  case (S_DeferCancel out)
  with assms have "outcome_inv c s out"
    and s': "s' = s\<lparr>ctx_Err := cancel (ctx_Err s), super := S_Done out\<rparr>"
    by (auto simp: super_inv_def super_step_def)
  from outcome_inv_cancel [OF this(1)] s' show ?thesis
    by (simp add: super_inv_def cancel_def split: option.splits)
next
  case (S_DeferUnlock out)
  with assms show ?thesis
    by (auto simp: super_inv_def super_step_def outcome_inv_def)
qed (use assms in \<open>auto simp: super_inv_def super_step_def split: if_splits\<close>)

lemma lock_inv_worker_step:
  "lock_inv s \<Longrightarrow> worker_step c s = Some s' \<Longrightarrow> lock_inv s'"
  by (cases "worker s")
     (auto simp: lock_inv_def worker_step_def worker_holds_def
           split: if_splits handler_result.splits option.splits)

lemma lock_inv_super_step:
  "lock_inv s \<Longrightarrow> super_step s = Some s' \<Longrightarrow> lock_inv s'"
  by (cases "super s")
     (auto simp: lock_inv_def super_step_def super_holds_def split: if_splits)

lemma lock_inv_select_case:
  "lock_inv s \<Longrightarrow> select_case b s = Some s' \<Longrightarrow> lock_inv s'"
  by (cases "super s"; cases b)
     (auto simp: lock_inv_def select_case_def super_holds_def
           split: if_splits option.splits list.splits)

lemma lock_inv_ctx_fire:
  "lock_inv s \<Longrightarrow> ctx_fire e s = Some s' \<Longrightarrow> lock_inv s'"
  by (auto simp: lock_inv_def ctx_fire_def split: option.splits)

lemma inv_init: "inv c (init ce)"
  by (simp add: inv_def worker_inv_def super_inv_def lock_inv_def init_def worker_holds_def super_holds_def)

lemma inv_step: "inv c s \<Longrightarrow> step c a s = Some s' \<Longrightarrow> inv c s'"
  unfolding inv_def
  by (cases a)
     (auto simp: step_def
           intro: lock_inv_worker_step lock_inv_super_step lock_inv_select_case lock_inv_ctx_fire
                  worker_inv_worker_step worker_inv_ctx_fire worker_inv_super_step worker_inv_select_case
                  super_inv_worker_step super_inv_ctx_fire super_inv_super_step super_inv_select_case)

lemma inv_run: "inv c s \<Longrightarrow> run c as s = Some t \<Longrightarrow> inv c t"
  by (induction as arbitrary: s) (auto split: option.splits dest: inv_step)

lemma worker_step_weight: "worker_step c s = Some s' \<Longrightarrow> weight s' < weight s"
  by (cases "worker s")
     (auto simp: weight_def worker_step_def split: if_splits handler_result.splits option.splits)

lemma super_step_weight: "super_step s = Some s' \<Longrightarrow> weight s' < weight s"
  by (cases "super s")
     (auto simp: weight_def super_step_def cancel_def split: if_splits option.splits)

lemma select_case_weight: "select_case b s = Some s' \<Longrightarrow> weight s' < weight s"
  by (cases "super s"; cases b)
     (auto simp: weight_def select_case_def split: if_splits option.splits list.splits)

lemma ctx_fire_weight: "ctx_fire e s = Some s' \<Longrightarrow> weight s' < weight s"
  by (auto simp: weight_def ctx_fire_def split: option.splits)

lemma step_weight: "step c a s = Some s' \<Longrightarrow> weight s' < weight s"
  by (cases a)
     (auto simp: step_def dest: worker_step_weight super_step_weight select_case_weight ctx_fire_weight)

lemma run_weight: "run c as s = Some t \<Longrightarrow> length as + weight t \<le> weight s"
proof (induction as arbitrary: s)
  case Nil
  then show ?case by simp
next
  case (Cons a as)
  then obtain s' where s': "step c a s = Some s'" and r: "run c as s' = Some t"
    by (auto split: option.splits)
  from Cons.IH [OF r] step_weight [OF s'] show ?case by simp
qed

lemma weight_init: "weight (init ce) \<le> 14"
  by (simp add: weight_def init_def split: option.splits)

lemma run_append:
  "run c (as @ bs) s = (case run c as s of None \<Rightarrow> None | Some t \<Rightarrow> run c bs t)"
  by (induction as arbitrary: s) (auto split: option.splits)

lemma can_step_iff: "can_step c s \<longleftrightarrow> (\<exists>a. step c a s \<noteq> None)"
proof
  assume "can_step c s"
  then consider "step c WorkerStep s \<noteq> None" | "step c SuperStep s \<noteq> None"
    | "step c (SelectCase B_panicChan) s \<noteq> None" | "step c (SelectCase B_done) s \<noteq> None"
    | "step c (SelectCase B_ctxDone) s \<noteq> None" | "step c (CtxDone context_DeadlineExceeded) s \<noteq> None"
    by (auto simp: can_step_def step_def ctx_fire_def)
  then show "\<exists>a. step c a s \<noteq> None" by cases blast+
next
  assume "\<exists>a. step c a s \<noteq> None"
  then obtain a where a: "step c a s \<noteq> None" ..
  show "can_step c s"
  proof (cases a)
    case (SelectCase b)
    with a show ?thesis by (cases b) (auto simp: can_step_def step_def)
  next
    case (CtxDone e)
    with a show ?thesis by (auto simp: can_step_def step_def ctx_fire_def split: option.splits)
  qed (use a in \<open>auto simp: can_step_def step_def\<close>)
qed

text \<open>A state in which nothing can move has the wrapper returned (or re-panicked).\<close>

lemma stuck_returned:
  assumes "inv c s" "\<not> can_step c s"
  shows "\<exists>out. super s = S_Done out"
proof (cases "super s")
  case S_Select
  with assms(2) show ?thesis
    by (auto simp: can_step_def select_case_def split: option.splits)
next
  case S_Lock
  with assms(2) have l: "lock s" by (auto simp: can_step_def super_step_def split: if_splits)
  from assms(1) S_Lock have d: "done_closed s" by (simp add: inv_def super_inv_def)
  from assms(1) l S_Lock have "worker_holds (worker s)"
    by (simp add: inv_def lock_inv_def super_holds_def)
  with assms d show ?thesis
    by (cases "worker s")
       (auto simp: can_step_def worker_step_def worker_holds_def inv_def worker_inv_def)
qed (use assms(2) in \<open>auto simp: can_step_def super_step_def\<close>)

lemma count_steps_append:
  "run c as s = Some t \<Longrightarrow> count_steps P c (as @ bs) s = count_steps P c as s + count_steps P c bs t"
  by (induction as arbitrary: s) (auto split: option.splits)

lemma count_select:
  "run c as s = Some t \<Longrightarrow>
   count_steps is_select c as s = (if super s = S_Select \<and> super t \<noteq> S_Select then 1 else 0)"
proof (induction as arbitrary: s)
  case Nil
  then show ?case by simp
next
  case (Cons a as)
  then obtain s' where s': "step c a s = Some s'" and r: "run c as s' = Some t"
    by (auto split: option.splits)
  have keep: "super u \<noteq> S_Select \<Longrightarrow> step c b u = Some u' \<Longrightarrow> super u' \<noteq> S_Select" for b u u'
    by (cases b; cases "super u")
       (auto simp: step_def worker_step_frame super_step_def select_case_def ctx_fire_def
             split: if_splits option.splits)
  have keep_run: "super u \<noteq> S_Select \<Longrightarrow> run c bs u = Some u' \<Longrightarrow> super u' \<noteq> S_Select" for bs u u'
    by (induction bs arbitrary: u) (auto split: option.splits dest: keep)
  show ?case
  proof (cases a)
    case (SelectCase b)
    with s' have "super s = S_Select" "super s' \<noteq> S_Select"
      by (auto simp: step_def select_case_def split: super.splits branch.splits list.splits
            if_splits option.splits)
    with keep_run [OF this(2) r] Cons.IH [OF r] s' SelectCase show ?thesis
      by (simp add: is_select_def)
  next
    case WorkerStep
    with s' have "super s' = super s" by (simp add: step_def worker_step_frame)
    with Cons.IH [OF r] s' WorkerStep show ?thesis by (simp add: is_select_def)
  next
    case SuperStep
    with s' have "super s \<noteq> S_Select" "super s' \<noteq> S_Select"
      by (auto simp: step_def super_step_def split: super.splits if_splits)
    with Cons.IH [OF r] s' SuperStep show ?thesis by (simp add: is_select_def)
  next
    case (CtxDone e)
    with s' have "super s' = super s" by (auto simp: step_def ctx_fire_def split: option.splits)
    with Cons.IH [OF r] s' CtxDone show ?thesis by (simp add: is_select_def)
  qed
qed

lemma TrimPrefix_keeps:
  "ch \<in> set s \<Longrightarrow> \<forall>enc\<in>set encs. ch \<notin> set enc \<Longrightarrow> ch \<in> set (TrimPrefix encs s)"
proof (induction encs s rule: TrimPrefix.induct)
  case (1 encs s)
  show ?case
  proof (cases "find (\<lambda>enc. enc \<noteq> [] \<and> take (length enc) s = enc) encs")
    case None
    with "1.prems" show ?thesis by (simp add: TrimPrefix.simps [of encs s])
  next
    case (Some enc)
    then have mem: "enc \<in> set encs" and tk: "take (length enc) s = enc"
      by (auto simp: find_Some_iff)
    from "1.prems"(2) mem have "ch \<notin> set enc" by blast
    with tk have "ch \<notin> set (take (length enc) s)" by simp
    with "1.prems"(1) have "ch \<in> set (drop (length enc) s)"
      by (metis Un_iff append_take_drop_id set_append)
    from "1.IH" [OF Some this "1.prems"(2)] Some show ?thesis
      by (simp add: TrimPrefix.simps [of encs s])
  qed
qed

lemma TrimSpace_nonempty:
  assumes "\<exists>ch\<in>set s. \<not> space_byte ch"
  shows "TrimSpace s \<noteq> []"
proof -
  from assms obtain ch where ch: "ch \<in> set s" and ns: "\<forall>enc\<in>set white_space. ch \<notin> set enc"
    by (auto simp: space_byte_def)
  from TrimPrefix_keeps [OF ch ns] have "ch \<in> set (rev (TrimPrefix white_space s))" by simp
  moreover from ns have "\<forall>enc\<in>set (map rev white_space). ch \<notin> set enc" by auto
  ultimately have "ch \<in> set (TrimPrefix (map rev white_space) (rev (TrimPrefix white_space s)))"
    by (rule TrimPrefix_keeps)
  then show ?thesis by (auto simp: TrimSpace_def)
qed

text \<open>White space is trimmed at both ends, also when it is not ASCII; a first line of a
  stack trace is left as it is.\<close>

lemma TrimSpace_unicode:
  "TrimSpace ([CHR 0x20, CHR 0xC2, CHR 0xA0] @ ''ab c'' @ [CHR 0xE2, CHR 0x80, CHR 0x83, CHR 0x0A])
     = ''ab c''"
  by (simp add: TrimSpace_def white_space_def TrimPrefix.simps)

lemma TrimSpace_goroutine: "TrimSpace ''goroutine 7 [running]:'' = ''goroutine 7 [running]:''"
  by (simp add: TrimSpace_def white_space_def TrimPrefix.simps)

lemmas exec_simps =
  step_def worker_step_def super_step_def select_case_def ctx_fire_def cancel_def init_def
  ctx_done_error_def Sprintf_panic_def can_step_def gopanic_def PanicNilError_def
  TrimSpace_goroutine
  is_select_def is_send_def is_write_resp_def is_write_err_def is_read_def
  c_ok_def c_boom_def c_nil_def c_nil_legacy_def c_late_def

lemma reachable_inv: "run c as (init ce) = Some t \<Longrightarrow> inv c t"
  using inv_init inv_run by blast

lemma count_steps_ghost:
  assumes "\<And>u a u'. inv c u \<Longrightarrow> step c a u = Some u' \<Longrightarrow> f u' = f u + (if P a u then 1 else 0)"
    and "inv c s" and "run c as s = Some t"
  shows "f s + count_steps P c as s = (f t :: nat)"
  using assms(2,3)
proof (induction as arbitrary: s)
  case Nil
  then show ?case by simp
next
  case (Cons a as)
  then obtain s' where s': "step c a s = Some s'" and r: "run c as s' = Some t"
    by (auto split: option.splits)
  from Cons.IH [OF inv_step [OF Cons.prems(1) s'] r] assms(1) [OF Cons.prems(1) s'] s'
  show ?case by simp
qed

lemma count_steps_potential:
  assumes "\<And>u a u'. step c a u = Some u' \<Longrightarrow> (if P a u then 1 else 0) + f u' \<le> f u"
    and "run c as s = Some t"
  shows "count_steps P c as s + f t \<le> (f s :: nat)"
  using assms(2)
proof (induction as arbitrary: s)
  case Nil
  then show ?case by simp
next
  case (Cons a as)
  then obtain s' where s': "step c a s = Some s'" and r: "run c as s' = Some t"
    by (auto split: option.splits)
  from Cons.IH [OF r] assms(1) [OF s'] s' show ?case by (simp split: if_splits)
qed

lemma step_super_cases:
  assumes "step c a s = Some s'"
  shows "super s' = super s
       \<or> (super s = S_Select \<and> (\<exists>b. a = SelectCase b) \<and>
            (super s' = S_Lock \<or> (\<exists>out. super s' = S_DeferCancel out)))
       \<or> (a = SuperStep \<and>
            ((super s = S_Lock \<and> super s' = S_Return)
             \<or> (super s = S_Return \<and> super s' = S_DeferUnlock (Returned (resp s) (err s)))
             \<or> (\<exists>out. super s = S_DeferUnlock out \<and> super s' = S_DeferCancel out)
             \<or> (\<exists>out. super s = S_DeferCancel out \<and> super s' = S_Done out)))"
proof (cases a)
  case WorkerStep
  with assms show ?thesis by (simp add: step_def worker_step_frame)
next
  case SuperStep
  with assms show ?thesis
    by (cases "super s") (auto simp: step_def super_step_def split: if_splits)
next
  case (SelectCase b)
  with assms show ?thesis
    by (cases "super s"; cases b)
       (auto simp: step_def select_case_def split: if_splits option.splits list.splits)
next
  case (CtxDone e)
  with assms show ?thesis by (auto simp: step_def ctx_fire_def split: option.splits)
qed

lemma pending_outcome_step:
  "step c a s = Some s' \<Longrightarrow> pending_outcome (super s) = Some out \<Longrightarrow>
   pending_outcome (super s') = Some out"
  using step_super_cases [of c a s s'] by (cases "super s") auto

lemma pending_outcome_run:
  "run c as s = Some t \<Longrightarrow> pending_outcome (super s) = Some out \<Longrightarrow>
   pending_outcome (super t) = Some out"
  by (induction as arbitrary: s) (auto split: option.splits dest: pending_outcome_step)

lemma returned_step: "step c a s = Some s' \<Longrightarrow> super s = S_Done out \<Longrightarrow> super s' = S_Done out"
  using step_super_cases [of c a s s'] by auto

lemma returned_run: "run c as s = Some t \<Longrightarrow> super s = S_Done out \<Longrightarrow> super t = S_Done out"
  by (induction as arbitrary: s) (auto split: option.splits dest: returned_step)

lemma returning_step:
  assumes "inv c s" "returning r e s" "step c a s = Some s'"
  shows "returning r e s'"
proof (cases a)
  case WorkerStep
  with assms have w: "worker_step c s = Some s'" by (simp add: step_def)
  from assms(1) have "worker_inv c s" by (simp add: inv_def)
  from worker_step_after_close [OF this w] worker_step_frame [OF w] assms(2)
  show ?thesis by (simp add: returning_def)
next
  case SuperStep
  with assms show ?thesis
    by (cases "super s") (auto simp: step_def super_step_def returning_def split: if_splits)
next
  case (SelectCase b)
  with assms show ?thesis
    by (cases "super s") (auto simp: step_def select_case_def returning_def)
next
  case (CtxDone x)
  with assms show ?thesis
    by (auto simp: step_def ctx_fire_def returning_def split: option.splits)
qed

lemma returning_run:
  "inv c s \<Longrightarrow> returning r e s \<Longrightarrow> run c as s = Some t \<Longrightarrow> returning r e t"
proof (induction as arbitrary: s)
  case Nil
  then show ?case by simp
next
  case (Cons a as)
  then obtain s' where s': "step c a s = Some s'" and r: "run c as s' = Some t"
    by (auto split: option.splits)
  from Cons.IH [OF inv_step [OF Cons.prems(1) s'] returning_step [OF Cons.prems(1,2) s'] r]
  show ?case .
qed

lemma deferred_cancel_run:
  "run c as s = Some t \<Longrightarrow> super s = S_DeferCancel out \<Longrightarrow>
   super t = S_Done out \<or> (super t = S_DeferCancel out \<and> super_step t \<noteq> None)"
proof (induction as arbitrary: s)
  case Nil
  then show ?case by (simp add: super_step_def)
next
  case (Cons a as)
  then obtain s' where s': "step c a s = Some s'" and r: "run c as s' = Some t"
    by (auto split: option.splits)
  from step_super_cases [OF s'] Cons.prems(2)
  consider "super s' = S_DeferCancel out" | "super s' = S_Done out" by auto
  then show ?case
  proof cases
    case 1
    from Cons.IH [OF r this] show ?thesis .
  next
    case 2
    from returned_run [OF r this] show ?thesis by simp
  qed
qed

lemma resp_written_step:
  assumes "inv c u" and "step c a u = Some u'"
  shows "(if resp_written u' then 1 else 0) = (if resp_written u then 1 else 0) + (if is_write_resp a u then 1 else (0::nat))"
proof (cases a)
  case WorkerStep
  from assms(1) have "worker_inv c u" by (simp add: inv_def)
  with assms(2) WorkerStep show ?thesis
    by (cases "worker u")
       (auto simp: step_def worker_step_def worker_inv_def resp_written_def is_write_resp_def
             split: if_splits handler_result.splits option.splits)
next
  case SuperStep
  with assms(2) show ?thesis
    by (cases "super u")
       (auto simp: step_def super_step_def resp_written_def is_write_resp_def split: if_splits)
next
  case (SelectCase b)
  with assms(2) show ?thesis
    by (cases "super u"; cases b)
       (auto simp: step_def select_case_def resp_written_def is_write_resp_def
             split: if_splits option.splits list.splits)
next
  case (CtxDone e)
  with assms(2) show ?thesis
    by (auto simp: step_def ctx_fire_def resp_written_def is_write_resp_def split: option.splits)
qed

lemma pair_written_step:
  assumes "inv c u" and "step c a u = Some u'"
  shows "(if pair_written u' then 1 else 0) = (if pair_written u then 1 else 0) + (if is_write_err a u then 1 else (0::nat))"
proof (cases a)
  case WorkerStep
  from assms(1) have "worker_inv c u" by (simp add: inv_def)
  with assms(2) WorkerStep show ?thesis
    by (cases "worker u")
       (auto simp: step_def worker_step_def worker_inv_def pair_written_def is_write_err_def
             split: if_splits handler_result.splits option.splits)
next
  case SuperStep
  with assms(2) show ?thesis
    by (cases "super u")
       (auto simp: step_def super_step_def pair_written_def is_write_err_def split: if_splits)
next
  case (SelectCase b)
  with assms(2) show ?thesis
    by (cases "super u"; cases b)
       (auto simp: step_def select_case_def pair_written_def is_write_err_def
             split: if_splits option.splits list.splits)
next
  case (CtxDone e)
  with assms(2) show ?thesis
    by (auto simp: step_def ctx_fire_def pair_written_def is_write_err_def split: option.splits)
qed

lemma read_potential:
  assumes "step c a u = Some u'"
  shows "(if is_read a u then 1 else 0) + (if 3 \<le> srank (super u') then 1 else 0)
       \<le> (if 3 \<le> srank (super u) then 1 else (0::nat))"
proof (cases a)
  case WorkerStep
  with assms show ?thesis by (simp add: step_def worker_step_frame is_read_def)
next
  case SuperStep
  with assms show ?thesis
    by (cases "super u") (auto simp: step_def super_step_def is_read_def split: if_splits)
next
  case (SelectCase b)
  with assms show ?thesis
    by (cases "super u"; cases b)
       (auto simp: step_def select_case_def is_read_def split: if_splits option.splits list.splits)
next
  case (CtxDone e)
  with assms show ?thesis by (auto simp: step_def ctx_fire_def is_read_def split: option.splits)
qed

lemma count_write_resp:
  assumes "run c as (init ce) = Some t"
  shows "count_steps is_write_resp c as (init ce) = (if resp_written t then 1 else 0)"
  using count_steps_ghost [where f = "\<lambda>u. if resp_written u then 1 else 0"
      and P = is_write_resp and c = c, OF resp_written_step [of c] inv_init assms]
  by (simp add: resp_written_def init_def)

lemma count_write_err:
  assumes "run c as (init ce) = Some t"
  shows "count_steps is_write_err c as (init ce) = (if pair_written t then 1 else 0)"
  using count_steps_ghost [where f = "\<lambda>u. if pair_written u then 1 else 0"
      and P = is_write_err and c = c, OF pair_written_step [of c] inv_init assms]
  by (simp add: pair_written_def init_def)

lemma count_read:
  assumes "run c as (init ce) = Some t"
  shows "count_steps is_read c as (init ce) \<le> 1"
  using count_steps_potential [where f = "\<lambda>u. if 3 \<le> srank (super u) then 1 else 0"
      and P = is_read and c = c, OF read_potential [of c] assms]
  by (simp add: init_def split: if_splits)

lemma untouched_step: "untouched s \<Longrightarrow> step c a s = Some s' \<Longrightarrow> untouched s'"
proof (cases a)
  case WorkerStep
  assume "untouched s" "step c a s = Some s'"
  with WorkerStep show ?thesis
    by (cases "worker s")
       (auto simp: step_def worker_step_def untouched_def
             split: if_splits option.splits handler_result.splits)
next
  case SuperStep
  assume "untouched s" "step c a s = Some s'"
  with SuperStep show ?thesis
    by (cases "super s") (auto simp: step_def super_step_def untouched_def split: if_splits)
next
  case (SelectCase b)
  assume "untouched s" "step c a s = Some s'"
  with SelectCase show ?thesis
    by (cases "super s"; cases b)
       (auto simp: step_def select_case_def untouched_def split: if_splits option.splits list.splits)
next
  case (CtxDone e)
  assume "untouched s" "step c a s = Some s'"
  with CtxDone show ?thesis
    by (auto simp: step_def ctx_fire_def untouched_def split: option.splits)
qed

lemma untouched_run: "untouched s \<Longrightarrow> run c as s = Some t \<Longrightarrow> untouched t"
  by (induction as arbitrary: s) (auto split: option.splits dest: untouched_step)

lemma untouched_reachable:
  assumes "run c as (init ce0) = Some t"
  shows "untouched t"
  by (rule untouched_run [OF _ assms]) (simp add: untouched_def init_def)

lemma relaying_step:
  assumes "relaying c v s" and "step c a s = Some s'"
  shows "relaying c v s'"
proof (cases a)
  case WorkerStep
  with assms show ?thesis
    by (cases "worker s")
       (auto simp: step_def worker_step_def relaying_def split: if_splits option.splits)
next
  case SuperStep
  with assms show ?thesis
    by (cases "super s"; cases "worker s")
       (auto simp: step_def super_step_def relaying_def split: if_splits)
next
  case (SelectCase b)
  with assms show ?thesis
    by (cases "super s"; cases b; cases "worker s")
       (auto simp: step_def select_case_def relaying_def split: if_splits option.splits list.splits)
next
  case (CtxDone e)
  with assms show ?thesis
    by (cases "worker s") (auto simp: step_def ctx_fire_def relaying_def split: option.splits)
qed

lemma relaying_run: "relaying c v s \<Longrightarrow> run c as s = Some t \<Longrightarrow> relaying c v t"
  by (induction as arbitrary: s) (auto split: option.splits dest: relaying_step)

lemma lost_step:
  assumes "lost s" and "step c a s = Some s'"
  shows "lost s' \<and> \<not> is_send a s"
proof (cases a)
  case WorkerStep
  with assms show ?thesis
    by (cases "worker s")
       (auto simp: step_def worker_step_def lost_def is_send_def split: if_splits option.splits)
next
  case SuperStep
  with assms show ?thesis
    by (cases "super s"; cases "worker s")
       (auto simp: step_def super_step_def lost_def is_send_def split: if_splits)
next
  case (SelectCase b)
  with assms show ?thesis
    by (cases "super s"; cases b; cases "worker s")
       (auto simp: step_def select_case_def lost_def is_send_def
             split: if_splits option.splits list.splits)
next
  case (CtxDone e)
  with assms show ?thesis
    by (cases "worker s")
       (auto simp: step_def ctx_fire_def lost_def is_send_def split: option.splits)
qed

lemma lost_run:
  "lost s \<Longrightarrow> run c as s = Some t \<Longrightarrow> lost t \<and> count_steps is_send c as s = 0"
proof (induction as arbitrary: s)
  case Nil
  then show ?case by simp
next
  case (Cons a as)
  then obtain s' where s': "step c a s = Some s'" and r: "run c as s' = Some t"
    by (auto split: option.splits)
  from lost_step [OF Cons.prems(1) s'] Cons.IH [OF _ r] s' show ?case by simp
qed

text \<open>The worker has sent only if it has ended.\<close>

lemma send_needs_exit:
  "run c as s = Some t \<Longrightarrow>
   count_steps is_send c as s + (if worker s = W_Exit then 1 else 0)
     \<le> (if worker t = W_Exit then 1 else 0)"
proof (induction as arbitrary: s)
  case Nil
  then show ?case by simp
next
  case (Cons a as)
  then obtain s' where s': "step c a s = Some s'" and r: "run c as s' = Some t"
    by (auto split: option.splits)
  have "(if is_send a s then 1 else 0) + (if worker s = W_Exit then 1 else 0)
      \<le> (if worker s' = W_Exit then 1 else (0::nat))"
  proof (cases a)
    case WorkerStep
    with s' show ?thesis
      by (cases "worker s")
         (auto simp: step_def worker_step_def is_send_def
               split: if_splits option.splits handler_result.splits)
  next
    case SuperStep
    with s' show ?thesis
      by (cases "super s") (auto simp: step_def super_step_def is_send_def split: if_splits)
  next
    case (SelectCase b)
    with s' show ?thesis
      by (cases "super s"; cases b)
         (auto simp: step_def select_case_def is_send_def split: if_splits option.splits list.splits)
  next
    case (CtxDone e)
    with s' show ?thesis by (auto simp: step_def ctx_fire_def is_send_def split: option.splits)
  qed
  with Cons.IH [OF r] s' show ?case by (simp split: if_splits)
qed

text \<open>
  When the handler panics in a reachable state, the worker goes on to its deferred calls
  with what \<^verbatim>\<open>recover()\<close> will yield, and the supervisor has received no panic yet.
\<close>

lemma handler_panics:
  assumes "run c as (init ce0) = Some s" and "worker s = W_Handler"
    and "handler c (ctx_Err s) (req c) = Panics p"
  shows "step c WorkerStep s = Some (s\<lparr>worker := W_DeferUnlock (gopanic (panicnil c) p)\<rparr>)"
    and "\<not> done_closed s" and "panicChan s = []"
    and "case pending_outcome (super s) of Some (Panicked msg) \<Rightarrow> False | _ \<Rightarrow> True"
    and "count_steps is_send c as (init ce0) = 0"
proof -
  from assms(2,3) show "step c WorkerStep s = Some (s\<lparr>worker := W_DeferUnlock (gopanic (panicnil c) p)\<rparr>)"
    by (simp add: step_def worker_step_def)
  have i: "inv c s" using assms(1) by (rule reachable_inv)
  with assms(2) show "\<not> done_closed s" and "panicChan s = []"
    by (simp_all add: inv_def worker_inv_def)
  from i assms(2) show "case pending_outcome (super s) of Some (Panicked msg) \<Rightarrow> False | _ \<Rightarrow> True"
    by (cases "super s")
       (auto simp: inv_def super_inv_def outcome_inv_def split: outcome.splits)
  from send_needs_exit [OF assms(1)] assms(2) show "count_steps is_send c as (init ce0) = 0"
    by simp
qed

lemma relaying_outcomes:
  assumes "relaying c v t" and "inv c t"
  shows "\<not> done_closed t"
    and "\<forall>b. select_case b t \<noteq> None \<and> ctx_Err t = None \<longrightarrow> b = B_panicChan"
    and "\<forall>t'. select_case B_panicChan t = Some t' \<longrightarrow>
           super t' = S_DeferCancel (Panicked (v @ [CHR 0x0A, CHR 0x0A] @ TrimSpace (Stack c)))"
    and "\<forall>out. pending_outcome (super t) = Some out \<longrightarrow>
           out = Panicked (v @ [CHR 0x0A, CHR 0x0A] @ TrimSpace (Stack c))
           \<or> (\<exists>e. ctx_Err t = Some e \<and> out = Returned None (Some (ctx_done_error e)))"
proof -
  from assms(1) show d: "\<not> done_closed t" by (simp add: relaying_def)
  show "\<forall>b. select_case b t \<noteq> None \<and> ctx_Err t = None \<longrightarrow> b = B_panicChan"
  proof (intro allI impI)
    fix b assume "select_case b t \<noteq> None \<and> ctx_Err t = None"
    with d show "b = B_panicChan"
      by (cases b; cases "super t") (auto simp: select_case_def)
  qed
  from assms(1) have pc: "panicChan t = [] \<or> panicChan t = [Sprintf_panic v (TrimSpace (Stack c))]"
    by (cases "worker t") (auto simp: relaying_def)
  then show "\<forall>t'. select_case B_panicChan t = Some t' \<longrightarrow>
      super t' = S_DeferCancel (Panicked (v @ [CHR 0x0A, CHR 0x0A] @ TrimSpace (Stack c)))"
    by (cases "super t") (auto simp: select_case_def Sprintf_panic_def)
  from assms(2) have s: "super_inv c t" by (simp add: inv_def)
  show "\<forall>out. pending_outcome (super t) = Some out \<longrightarrow>
      out = Panicked (v @ [CHR 0x0A, CHR 0x0A] @ TrimSpace (Stack c))
      \<or> (\<exists>e. ctx_Err t = Some e \<and> out = Returned None (Some (ctx_done_error e)))"
  proof (intro allI impI)
    fix out assume p: "pending_outcome (super t) = Some out"
    show "out = Panicked (v @ [CHR 0x0A, CHR 0x0A] @ TrimSpace (Stack c))
        \<or> (\<exists>e. ctx_Err t = Some e \<and> out = Returned None (Some (ctx_done_error e)))"
    proof (cases out)
      case (Panicked msg)
      with p assms(1) show ?thesis by (simp add: relaying_def Sprintf_panic_def)
    next
      case (Returned r e)
      with p s d show ?thesis
        by (cases "super t") (auto simp: super_inv_def outcome_inv_def)
    qed
  qed
qed

section \<open>The bounded executor: outcomes\<close>

text \<open>
  C7. In every run of an invocation the \<^verbatim>\<open>select\<close> takes a case at most once: the
  number of cases taken is 0 while the supervisor still waits and 1 ever after, and once a
  case has been taken no case can be taken again. Runs are finite (at most 14 actions), and
  a run that cannot be extended has the wrapper ended with an outcome; so a run that is
  continued as long as some goroutine or the context can move takes exactly one case. The
  outcome fixed by the case taken stays what it is in every continuation of the run,
  whatever the worker and the context do afterwards.
\<close>

theorem C7_exactly_one_branch:
  assumes "run c as (init ce) = Some t" and "run c bs t = Some u"
  shows "count_steps is_select c (as @ bs) (init ce) = (if super u = S_Select then 0 else 1)
       \<and> length (as @ bs) \<le> 14
       \<and> (\<not> can_step c u \<longrightarrow> (\<exists>out. super u = S_Done out))
       \<and> (super t \<noteq> S_Select \<longrightarrow> (\<forall>b. select_case b t = None))
       \<and> (\<forall>out. pending_outcome (super t) = Some out \<longrightarrow> pending_outcome (super u) = Some out)
       \<and> (\<forall>out. super t = S_Done out \<longrightarrow> super u = S_Done out)"
proof -
  from assms have r: "run c (as @ bs) (init ce) = Some u" by (simp add: run_append)
  have "count_steps is_select c (as @ bs) (init ce) = (if super u = S_Select then 0 else 1)"
    using count_select [OF r] by (simp add: init_def)
  moreover have "length (as @ bs) \<le> 14"
    using run_weight [OF r] by (simp add: weight_def init_def split: option.splits)
  moreover have "\<not> can_step c u \<longrightarrow> (\<exists>out. super u = S_Done out)"
    using stuck_returned [OF reachable_inv [OF r]] by blast
  moreover have "super t \<noteq> S_Select \<longrightarrow> (\<forall>b. select_case b t = None)"
    by (cases "super t") (auto simp: select_case_def)
  moreover have "\<forall>out. pending_outcome (super t) = Some out \<longrightarrow> pending_outcome (super u) = Some out"
    using pending_outcome_run [OF assms(2)] by blast
  moreover have "\<forall>out. super t = S_Done out \<longrightarrow> super u = S_Done out"
    using returned_run [OF assms(2)] by blast
  ultimately show ?thesis by blast
qed

text \<open>
  A complete run of a handler that returns \<^verbatim>\<open>("ok", nil)\<close>: the deadline fires while
  the supervisor has not yet looked, the \<^verbatim>\<open>select\<close> takes the completion case, and that
  is the one case taken.
\<close>

theorem C7_exactly_one_branch_witness:
  "run c_ok
      [WorkerStep, WorkerStep, WorkerStep, WorkerStep, WorkerStep,
       CtxDone context_DeadlineExceeded, SelectCase B_done, WorkerStep, SuperStep,
       SuperStep, SuperStep, SuperStep]
      (init None)
    = Some ((init (Some context_DeadlineExceeded))
      \<lparr>resp := Some ''ok'', done_closed := True, worker := W_DeferRecover None,
        super := S_Done (Returned (Some ''ok'') None)\<rparr>)
   \<and> run c_ok
      [WorkerStep]
      ((init (Some context_DeadlineExceeded))
      \<lparr>resp := Some ''ok'', done_closed := True, worker := W_DeferRecover None,
        super := S_Done (Returned (Some ''ok'') None)\<rparr>)
    = Some ((init (Some context_DeadlineExceeded))
      \<lparr>resp := Some ''ok'', done_closed := True, worker := W_Exit,
        super := S_Done (Returned (Some ''ok'') None)\<rparr>)
   \<and> length ([WorkerStep, WorkerStep, WorkerStep, WorkerStep, WorkerStep,
       CtxDone context_DeadlineExceeded, SelectCase B_done, WorkerStep, SuperStep,
       SuperStep, SuperStep, SuperStep]
      @ [WorkerStep]) \<le> 14
   \<and> count_steps is_select c_ok
      [WorkerStep, WorkerStep, WorkerStep, WorkerStep, WorkerStep,
       CtxDone context_DeadlineExceeded, SelectCase B_done, WorkerStep, SuperStep,
       SuperStep, SuperStep, SuperStep, WorkerStep]
      (init None) = 1
   \<and> \<not> can_step c_ok
      ((init (Some context_DeadlineExceeded))
      \<lparr>resp := Some ''ok'', done_closed := True, worker := W_Exit,
        super := S_Done (Returned (Some ''ok'') None)\<rparr>)"
proof -
  have h1: "run c_ok
        [WorkerStep, WorkerStep, WorkerStep, WorkerStep, WorkerStep,
         CtxDone context_DeadlineExceeded, SelectCase B_done, WorkerStep, SuperStep,
         SuperStep, SuperStep, SuperStep]
        (init None)
      = Some ((init (Some context_DeadlineExceeded))
        \<lparr>resp := Some ''ok'', done_closed := True, worker := W_DeferRecover None,
          super := S_Done (Returned (Some ''ok'') None)\<rparr>)"
    by (simp add: exec_simps)
  have h2: "run c_ok
        [WorkerStep]
        ((init (Some context_DeadlineExceeded))
        \<lparr>resp := Some ''ok'', done_closed := True, worker := W_DeferRecover None,
          super := S_Done (Returned (Some ''ok'') None)\<rparr>)
      = Some ((init (Some context_DeadlineExceeded))
        \<lparr>resp := Some ''ok'', done_closed := True, worker := W_Exit,
          super := S_Done (Returned (Some ''ok'') None)\<rparr>)"
    by (simp add: exec_simps)
  note th = C7_exactly_one_branch [OF h1 h2]
  from th have k0: "length ([WorkerStep, WorkerStep, WorkerStep, WorkerStep, WorkerStep,
         CtxDone context_DeadlineExceeded, SelectCase B_done, WorkerStep, SuperStep,
         SuperStep, SuperStep, SuperStep]
        @ [WorkerStep]) \<le> 14"
    by (elim conjE)
  have e0: "count_steps is_select c_ok
        [WorkerStep, WorkerStep, WorkerStep, WorkerStep, WorkerStep,
         CtxDone context_DeadlineExceeded, SelectCase B_done, WorkerStep, SuperStep,
         SuperStep, SuperStep, SuperStep, WorkerStep]
        (init None) = 1"
    by (simp add: exec_simps)
  have e1: "\<not> can_step c_ok
        ((init (Some context_DeadlineExceeded))
        \<lparr>resp := Some ''ok'', done_closed := True, worker := W_Exit,
          super := S_Done (Returned (Some ''ok'') None)\<rparr>)"
    by (simp add: exec_simps)
  from h1 h2 k0 e0 e1 show ?thesis by (intro conjI)
qed

text \<open>
  C1. When the \<^verbatim>\<open>select\<close> takes its case while \<^verbatim>\<open>ctx.Done()\<close> has not fired, and
  the handler returns \<open>(r, e)\<close> under an open context, then the case taken is the
  completion case, the variables hold \<open>(r, e)\<close>, and the wrapper returns exactly
  \<open>(r, e)\<close>: every continuation of the run either has returned that pair or can still
  move, and no run is longer than 14 actions. What the context does after the
  \<^verbatim>\<open>select\<close> has taken its case changes nothing.
\<close>

theorem C1_completion_before_ctx_done:
  assumes "run c as (init ce0) = Some s" and "ctx_Err s = None"
    and "select_case b s = Some s'" and "handler c None (req c) = Returns r e"
    and "run c bs s' = Some t"
  shows "b = B_done \<and> done_closed s \<and> resp s = r \<and> err s = e
       \<and> (\<forall>out. pending_outcome (super t) = Some out \<longrightarrow> out = Returned r e)
       \<and> (super t = S_Done (Returned r e) \<or> can_step c t)
       \<and> length (as @ SelectCase b # bs) \<le> 14"
proof -
  have i: "inv c s" using assms(1) by (rule reachable_inv)
  then have w: "worker_inv c s" by (simp add: inv_def)
  have sel: "super s = S_Select"
    using assms(3) by (cases "super s") (auto simp: select_case_def)
  have nopanic: "panicChan s = []"
  proof (rule ccontr)
    assume "panicChan s \<noteq> []"
    with w have "\<exists>msg. relayed c (ctx_Err s) msg"
      by (cases "worker s") (auto simp: worker_inv_def split: if_splits)
    with assms(2,4) show False by (auto simp: relayed_def panicked_def called_def)
  qed
  with assms(2,3) sel have b: "b = B_done" and d: "done_closed s" and s': "s' = s\<lparr>super := S_Lock\<rparr>"
    by (cases b; auto simp: select_case_def split: if_splits)+
  from w d have "called c (ctx_Err s) (Returns (resp s) (err s))"
    by (cases "worker s") (auto simp: worker_inv_def split: if_splits)
  with assms(2,4) have re: "resp s = r" "err s = e" by (auto simp: called_def)
  have st: "step c (SelectCase b) s = Some s'" using assms(3) by (simp add: step_def)
  have i': "inv c s'" using i st by (rule inv_step)
  have "returning r e s'" using d re s' by (simp add: returning_def)
  from returning_run [OF i' this assms(5)] have ret: "returning r e t" .
  have it: "inv c t" using i' assms(5) by (rule inv_run)
  have out: "\<forall>out. pending_outcome (super t) = Some out \<longrightarrow> out = Returned r e"
    using ret by (cases "super t") (auto simp: returning_def)
  have prog: "super t = S_Done (Returned r e) \<or> can_step c t"
  proof (cases "can_step c t")
    case False
    from stuck_returned [OF it False] obtain out where "super t = S_Done out" ..
    with out show ?thesis by auto
  qed simp
  have "run c (as @ SelectCase b # bs) (init ce0) = Some t"
    using assms(1,5) st by (simp add: run_append)
  from run_weight [OF this] have "length (as @ SelectCase b # bs) \<le> 14"
    by (simp add: weight_def init_def split: option.splits)
  with b d re out prog show ?thesis by simp
qed

text \<open>
  The handler returns \<^verbatim>\<open>("ok", nil)\<close>, the worker closes \<^verbatim>\<open>done\<close>, the
  \<^verbatim>\<open>select\<close> takes the completion case under an open context, and the wrapper
  returns \<^verbatim>\<open>("ok", nil)\<close>.
\<close>

theorem C1_completion_before_ctx_done_witness:
  "run c_ok
      [WorkerStep, WorkerStep, WorkerStep, WorkerStep, WorkerStep]
      (init None)
    = Some ((init None)
      \<lparr>resp := Some ''ok'', lock := True, done_closed := True,
        worker := W_DeferUnlock None\<rparr>)
   \<and> select_case B_done
      ((init None)
      \<lparr>resp := Some ''ok'', lock := True, done_closed := True,
        worker := W_DeferUnlock None\<rparr>)
    = Some ((init None)
      \<lparr>resp := Some ''ok'', lock := True, done_closed := True,
        worker := W_DeferUnlock None, super := S_Lock\<rparr>)
   \<and> handler c_ok None (req c_ok) = Returns (Some ''ok'') None
   \<and> run c_ok
      [WorkerStep, SuperStep, SuperStep, SuperStep, SuperStep]
      ((init None)
      \<lparr>resp := Some ''ok'', lock := True, done_closed := True,
        worker := W_DeferUnlock None, super := S_Lock\<rparr>)
    = Some ((init (Some context_Canceled))
      \<lparr>resp := Some ''ok'', done_closed := True, worker := W_DeferRecover None,
        super := S_Done (Returned (Some ''ok'') None)\<rparr>)
   \<and> resp ((init None)
      \<lparr>resp := Some ''ok'', lock := True, done_closed := True,
        worker := W_DeferUnlock None\<rparr>) = Some ''ok''"
proof -
  have h1: "run c_ok
        [WorkerStep, WorkerStep, WorkerStep, WorkerStep, WorkerStep]
        (init None)
      = Some ((init None)
        \<lparr>resp := Some ''ok'', lock := True, done_closed := True,
          worker := W_DeferUnlock None\<rparr>)"
    by (simp add: exec_simps)
  have h2: "ctx_Err ((init None)
        \<lparr>resp := Some ''ok'', lock := True, done_closed := True,
          worker := W_DeferUnlock None\<rparr>) = None"
    by (simp add: init_def)
  have h3: "select_case B_done
        ((init None)
        \<lparr>resp := Some ''ok'', lock := True, done_closed := True,
          worker := W_DeferUnlock None\<rparr>)
      = Some ((init None)
        \<lparr>resp := Some ''ok'', lock := True, done_closed := True,
          worker := W_DeferUnlock None, super := S_Lock\<rparr>)"
    by (simp add: exec_simps)
  have h4: "handler c_ok None (req c_ok) = Returns (Some ''ok'') None"
    by (simp add: c_ok_def)
  have h5: "run c_ok
        [WorkerStep, SuperStep, SuperStep, SuperStep, SuperStep]
        ((init None)
        \<lparr>resp := Some ''ok'', lock := True, done_closed := True,
          worker := W_DeferUnlock None, super := S_Lock\<rparr>)
      = Some ((init (Some context_Canceled))
        \<lparr>resp := Some ''ok'', done_closed := True, worker := W_DeferRecover None,
          super := S_Done (Returned (Some ''ok'') None)\<rparr>)"
    by (simp add: exec_simps)
  note th = C1_completion_before_ctx_done [OF h1 h2 h3 h4 h5]
  from th have k0: "resp ((init None)
        \<lparr>resp := Some ''ok'', lock := True, done_closed := True,
          worker := W_DeferUnlock None\<rparr>) = Some ''ok''"
    by (elim conjE)
  from h1 h3 h4 h5 k0 show ?thesis by (intro conjI)
qed

text \<open>
  Without the condition on the moment of the \<^verbatim>\<open>select\<close> the statement of C1 fails, in
  two runs of a handler that returns \<^verbatim>\<open>("ok", nil)\<close> while \<^verbatim>\<open>ctx.Done()\<close> is open.
  In the first the deadline fires after the handler has returned and before the worker
  has closed \<^verbatim>\<open>done\<close>: the context case is the only one ready, and the wrapper returns
  \<^verbatim>\<open>(nil, DeadlineExceeded)\<close>. In the second the worker even closes \<^verbatim>\<open>done\<close> before
  the deadline fires, but the supervisor's \<^verbatim>\<open>select\<close> takes its case only afterwards:
  both cases are ready, the \<^verbatim>\<open>select\<close> may take the context case, and the wrapper
  returns \<^verbatim>\<open>(nil, DeadlineExceeded)\<close> again.
\<close>

theorem C1_counterexample:
  "handler c_ok None (req c_ok) = Returns (Some ''ok'') None
   \<and> run c_ok
      [WorkerStep, WorkerStep]
      (init None)
    = Some \<lparr>ctx_Err = None, resp = None, err = None,
          lock = True, done_closed = False, panicChan = [],
          worker = W_AssignResp (Some ''ok'') None,
          super = S_Select\<rparr>
   \<and> run c_ok
      [WorkerStep, WorkerStep, CtxDone context_DeadlineExceeded, SelectCase B_ctxDone,
       SuperStep]
      (init None)
    = Some \<lparr>ctx_Err = Some context_DeadlineExceeded, resp = None, err = None,
          lock = True, done_closed = False, panicChan = [],
          worker = W_AssignResp (Some ''ok'') None,
          super = S_Done
           (Returned None
            (Some (status_Error codes_DeadlineExceeded ''context deadline exceeded'')))\<rparr>
   \<and> run c_ok
      [WorkerStep, WorkerStep, WorkerStep, WorkerStep, WorkerStep]
      (init None)
    = Some \<lparr>ctx_Err = None, resp = Some ''ok'', err = None,
          lock = True, done_closed = True, panicChan = [],
          worker = W_DeferUnlock None,
          super = S_Select\<rparr>
   \<and> run c_ok
      [WorkerStep, WorkerStep, WorkerStep, WorkerStep, WorkerStep,
       CtxDone context_DeadlineExceeded, SelectCase B_ctxDone, SuperStep]
      (init None)
    = Some \<lparr>ctx_Err = Some context_DeadlineExceeded, resp = Some ''ok'', err = None,
          lock = True, done_closed = True, panicChan = [],
          worker = W_DeferUnlock None,
          super = S_Done
           (Returned None
            (Some (status_Error codes_DeadlineExceeded ''context deadline exceeded'')))\<rparr>
   \<and> Returned None (Some (status_Error codes_DeadlineExceeded ''context deadline exceeded''))
       \<noteq> Returned (Some ''ok'') None"
  by (simp add: exec_simps)

text \<open>
  C2. When the \<^verbatim>\<open>select\<close> takes a case in a state where \<^verbatim>\<open>done\<close> is not closed and
  no relayed panic is buffered (in particular while the handler has not completed), the
  case is the context case: \<^verbatim>\<open>ctx.Done()\<close> has fired with some error \<open>ce\<close>, and
  the wrapper returns a \<^verbatim>\<open>nil\<close> response with the error of lines 60 to 66, a status
  error of code \<^verbatim>\<open>DeadlineExceeded\<close> for \<^verbatim>\<open>context.DeadlineExceeded\<close> and of code
  \<^verbatim>\<open>Canceled\<close> for \<^verbatim>\<open>context.Canceled\<close>. This outcome is fixed: whatever the worker
  does afterwards (the handler may still return or panic), the supervisor holds it, and it
  either has returned it or its next step is enabled.
\<close>

theorem C2_ctx_done_before_completion:
  assumes "select_case b s = Some s'" and "\<not> done_closed s" and "panicChan s = []"
    and "run c bs s' = Some t"
  shows "b = B_ctxDone
       \<and> (\<exists>ce. ctx_Err s = Some ce
            \<and> pending_outcome (super t) = Some (Returned None (Some (ctx_done_error ce)))
            \<and> (super t = S_Done (Returned None (Some (ctx_done_error ce))) \<or> super_step t \<noteq> None))
       \<and> ctx_done_error context_DeadlineExceeded
           = status_Error codes_DeadlineExceeded ''context deadline exceeded''
       \<and> ctx_done_error context_Canceled = status_Error codes_Canceled ''context canceled''
       \<and> length bs \<le> 13"
proof -
  have sel: "super s = S_Select"
    using assms(1) by (cases "super s") (auto simp: select_case_def)
  with assms(1,2,3) have b: "b = B_ctxDone" by (cases b) (auto simp: select_case_def)
  with assms(1) sel obtain ce where ce: "ctx_Err s = Some ce"
    and s': "s' = s\<lparr>super := S_DeferCancel (Returned None (Some (ctx_done_error ce)))\<rparr>"
    by (auto simp: select_case_def split: option.splits)
  from s' have sup: "super s' = S_DeferCancel (Returned None (Some (ctx_done_error ce)))" by simp
  from deferred_cancel_run [OF assms(4) sup]
  have fin: "super t = S_Done (Returned None (Some (ctx_done_error ce))) \<or>
      (super t = S_DeferCancel (Returned None (Some (ctx_done_error ce))) \<and> super_step t \<noteq> None)" .
  then have pend: "pending_outcome (super t) = Some (Returned None (Some (ctx_done_error ce)))"
    by auto
  have "weight s' \<le> 13"
    using s' ce by (cases "worker s") (simp_all add: weight_def)
  with run_weight [OF assms(4)] have len: "length bs \<le> 13" by simp
  have m1: "ctx_done_error context_DeadlineExceeded
      = status_Error codes_DeadlineExceeded ''context deadline exceeded''"
    by (simp add: ctx_done_error_def)
  have m2: "ctx_done_error context_Canceled = status_Error codes_Canceled ''context canceled''"
    by (simp add: ctx_done_error_def)
  from b ce pend fin len m1 m2 show ?thesis by auto
qed

text \<open>
  The deadline has fired while the handler runs; the \<^verbatim>\<open>select\<close> takes the context
  case; the handler then returns \<^verbatim>\<open>("ok", nil)\<close> and the worker stores it and closes
  \<^verbatim>\<open>done\<close>, but the wrapper has returned \<^verbatim>\<open>(nil, DeadlineExceeded)\<close>.
\<close>

theorem C2_ctx_done_before_completion_witness:
  "select_case B_ctxDone
      ((init (Some context_DeadlineExceeded))
      \<lparr>lock := True, worker := W_Handler\<rparr>)
    = Some ((init (Some context_DeadlineExceeded))
      \<lparr>lock := True, worker := W_Handler,
        super := S_DeferCancel (Returned None (Some (status_Error codes_DeadlineExceeded ''context deadline exceeded'')))\<rparr>)
   \<and> run c_ok
      [WorkerStep, SuperStep, WorkerStep, WorkerStep, WorkerStep]
      ((init (Some context_DeadlineExceeded))
      \<lparr>lock := True, worker := W_Handler,
        super := S_DeferCancel (Returned None (Some (status_Error codes_DeadlineExceeded ''context deadline exceeded'')))\<rparr>)
    = Some ((init (Some context_DeadlineExceeded))
      \<lparr>resp := Some ''ok'', lock := True, done_closed := True,
        worker := W_DeferUnlock None,
        super := S_Done (Returned None (Some (status_Error codes_DeadlineExceeded ''context deadline exceeded'')))\<rparr>)
   \<and> (\<exists>ce. ctx_Err (((init (Some context_DeadlineExceeded))
      \<lparr>lock := True, worker := W_Handler\<rparr>) :: string state) = Some ce
      \<and> pending_outcome (super ((init (Some context_DeadlineExceeded))
      \<lparr>resp := Some ''ok'', lock := True, done_closed := True,
        worker := W_DeferUnlock None,
        super := S_Done (Returned None (Some (status_Error codes_DeadlineExceeded ''context deadline exceeded'')))\<rparr>))
          = Some (Returned None (Some (ctx_done_error ce)))
      \<and> (super ((init (Some context_DeadlineExceeded))
      \<lparr>resp := Some ''ok'', lock := True, done_closed := True,
        worker := W_DeferUnlock None,
        super := S_Done (Returned None (Some (status_Error codes_DeadlineExceeded ''context deadline exceeded'')))\<rparr>)
            = S_Done (Returned None (Some (ctx_done_error ce)))
          \<or> super_step ((init (Some context_DeadlineExceeded))
      \<lparr>resp := Some ''ok'', lock := True, done_closed := True,
        worker := W_DeferUnlock None,
        super := S_Done (Returned None (Some (status_Error codes_DeadlineExceeded ''context deadline exceeded'')))\<rparr>) \<noteq> None))"
proof -
  have h1: "select_case B_ctxDone
        ((init (Some context_DeadlineExceeded))
        \<lparr>lock := True, worker := W_Handler\<rparr>)
      = Some ((init (Some context_DeadlineExceeded))
        \<lparr>lock := True, worker := W_Handler,
          super := S_DeferCancel (Returned None (Some (status_Error codes_DeadlineExceeded ''context deadline exceeded'')))\<rparr>)"
    by (simp add: exec_simps)
  have h2: "\<not> done_closed ((init (Some context_DeadlineExceeded))
        \<lparr>lock := True, worker := W_Handler\<rparr>)"
    by (simp add: init_def)
  have h3: "panicChan ((init (Some context_DeadlineExceeded))
        \<lparr>lock := True, worker := W_Handler\<rparr>) = []"
    by (simp add: init_def)
  have h4: "run c_ok
        [WorkerStep, SuperStep, WorkerStep, WorkerStep, WorkerStep]
        ((init (Some context_DeadlineExceeded))
        \<lparr>lock := True, worker := W_Handler,
          super := S_DeferCancel (Returned None (Some (status_Error codes_DeadlineExceeded ''context deadline exceeded'')))\<rparr>)
      = Some ((init (Some context_DeadlineExceeded))
        \<lparr>resp := Some ''ok'', lock := True, done_closed := True,
          worker := W_DeferUnlock None,
          super := S_Done (Returned None (Some (status_Error codes_DeadlineExceeded ''context deadline exceeded'')))\<rparr>)"
    by (simp add: exec_simps)
  note th = C2_ctx_done_before_completion [OF h1 h2 h3 h4]
  from th have k0: "\<exists>ce. ctx_Err (((init (Some context_DeadlineExceeded))
        \<lparr>lock := True, worker := W_Handler\<rparr>) :: string state) = Some ce
        \<and> pending_outcome (super ((init (Some context_DeadlineExceeded))
        \<lparr>resp := Some ''ok'', lock := True, done_closed := True,
          worker := W_DeferUnlock None,
          super := S_Done (Returned None (Some (status_Error codes_DeadlineExceeded ''context deadline exceeded'')))\<rparr>))
            = Some (Returned None (Some (ctx_done_error ce)))
        \<and> (super ((init (Some context_DeadlineExceeded))
        \<lparr>resp := Some ''ok'', lock := True, done_closed := True,
          worker := W_DeferUnlock None,
          super := S_Done (Returned None (Some (status_Error codes_DeadlineExceeded ''context deadline exceeded'')))\<rparr>)
              = S_Done (Returned None (Some (ctx_done_error ce)))
            \<or> super_step ((init (Some context_DeadlineExceeded))
        \<lparr>resp := Some ''ok'', lock := True, done_closed := True,
          worker := W_DeferUnlock None,
          super := S_Done (Returned None (Some (status_Error codes_DeadlineExceeded ''context deadline exceeded'')))\<rparr>) \<noteq> None)"
    by (elim conjE)
  from h1 h4 k0 show ?thesis by (intro conjI)
qed

text \<open>
  With the condition read at the moment \<^verbatim>\<open>ctx.Done()\<close> fires instead of the moment
  the \<^verbatim>\<open>select\<close> takes its case, the statement of C2 fails. The deadline fires when
  the worker has not even called the handler; before the supervisor's \<^verbatim>\<open>select\<close> has
  taken a case the handler returns \<^verbatim>\<open>("ok", nil)\<close> and the worker closes \<^verbatim>\<open>done\<close>;
  both cases are ready, the \<^verbatim>\<open>select\<close> may take the completion case, and the wrapper
  returns the handler's pair.
\<close>

theorem C2_counterexample:
  "run c_ok
      [CtxDone context_DeadlineExceeded]
      (init None)
    = Some \<lparr>ctx_Err = Some context_DeadlineExceeded, resp = None, err = None,
          lock = False, done_closed = False, panicChan = [],
          worker = W_Lock,
          super = S_Select\<rparr>
   \<and> run c_ok
      [CtxDone context_DeadlineExceeded, WorkerStep, WorkerStep, WorkerStep, WorkerStep,
       WorkerStep, SelectCase B_done, WorkerStep, SuperStep, SuperStep, SuperStep,
       SuperStep]
      (init None)
    = Some \<lparr>ctx_Err = Some context_DeadlineExceeded, resp = Some ''ok'', err = None,
          lock = False, done_closed = True, panicChan = [],
          worker = W_DeferRecover None,
          super = S_Done (Returned (Some ''ok'') None)\<rparr>
   \<and> Returned (Some ''ok'') None
       \<noteq> Returned None (Some (status_Error codes_DeadlineExceeded ''context deadline exceeded''))"
  by (simp add: exec_simps)

text \<open>
  C3. When a call of the handler panics with a non-nil value rendered as \<open>v\<close>, whatever
  the context was when the handler was called (and \<^verbatim>\<open>debug.Stack()\<close> holds a byte that
  is not part of white space): from then on \<^verbatim>\<open>done\<close> is never closed and \<^verbatim>\<open>resp\<close> and
  \<^verbatim>\<open>err\<close> are never assigned; while \<^verbatim>\<open>ctx.Done()\<close> has not fired the only case the
  \<^verbatim>\<open>select\<close> can take is the panic case, and taking it re-raises, on the caller's
  goroutine, the string \<open>v\<close> followed by two newlines and the trimmed stack trace, which
  is not empty; the only other way the wrapper ends is the context case, with a
  \<^verbatim>\<open>nil\<close> response and the context's error, never with a pair of the handler. A run
  that cannot be extended has ended in one of the two ways.
\<close>

theorem C3_panic_relayed_or_ctx_done:
  assumes "run c as (init ce0) = Some s" and "worker s = W_Handler"
    and "handler c (ctx_Err s) (req c) = Panics (Some v)"
    and "run c (WorkerStep # bs) s = Some t"
    and "\<exists>ch\<in>set (Stack c). \<not> space_byte ch"
  shows "\<not> done_closed t \<and> resp t = None \<and> err t = None
       \<and> (\<forall>b. select_case b t \<noteq> None \<and> ctx_Err t = None \<longrightarrow> b = B_panicChan)
       \<and> (\<forall>t'. select_case B_panicChan t = Some t' \<longrightarrow>
             super t' = S_DeferCancel (Panicked (v @ [CHR 0x0A, CHR 0x0A] @ TrimSpace (Stack c))))
       \<and> (\<forall>out. pending_outcome (super t) = Some out \<longrightarrow>
             out = Panicked (v @ [CHR 0x0A, CHR 0x0A] @ TrimSpace (Stack c))
             \<or> (\<exists>e. ctx_Err t = Some e \<and> out = Returned None (Some (ctx_done_error e))))
       \<and> TrimSpace (Stack c) \<noteq> []
       \<and> (\<not> can_step c t \<longrightarrow> (\<exists>out. super t = S_Done out))"
proof -
  let ?s' = "s\<lparr>worker := W_DeferUnlock (Some v)\<rparr>"
  note hp = handler_panics [OF assms(1,2,3)]
  from hp(1) have st: "step c WorkerStep s = Some ?s'" by (simp add: gopanic_def)
  with assms(4) have r: "run c bs ?s' = Some t" by simp
  from hp(2,3,4) have "relaying c v ?s'"
    by (auto simp: relaying_def split: option.splits outcome.splits)
  from relaying_run [OF this r] have rel: "relaying c v t" .
  have rt: "run c (as @ WorkerStep # bs) (init ce0) = Some t"
    using assms(1,4) by (simp add: run_append)
  then have it: "inv c t" by (rule reachable_inv)
  note ro = relaying_outcomes [OF rel it]
  from untouched_reachable [OF rt] ro(1) rel have un: "resp t = None \<and> err t = None"
    by (cases "worker t") (auto simp: untouched_def relaying_def)
  have tr: "TrimSpace (Stack c) \<noteq> []" using assms(5) by (rule TrimSpace_nonempty)
  have fin: "\<not> can_step c t \<longrightarrow> (\<exists>out. super t = S_Done out)"
    using stuck_returned [OF it] by blast
  from ro un tr fin show ?thesis by blast
qed

text \<open>
  A handler that waits for \<^verbatim>\<open>ctx.Done()\<close> and then panics with the context's error:
  the deadline fires, the handler panics, the worker relays it, both the panic case and the
  context case are ready, the \<^verbatim>\<open>select\<close> takes the panic case and the wrapper panics
  with the description, two newlines and the stack trace.
\<close>

theorem C3_panic_relayed_or_ctx_done_witness:
  "run c_late
      [WorkerStep, CtxDone context_DeadlineExceeded]
      (init None)
    = Some ((init (Some context_DeadlineExceeded))
      \<lparr>lock := True, worker := W_Handler\<rparr>)
   \<and> handler c_late
      (ctx_Err ((init (Some context_DeadlineExceeded))
      \<lparr>lock := True, worker := W_Handler\<rparr>))
      (req c_late)
    = Panics (Some ''context deadline exceeded'')
   \<and> run c_late
      [WorkerStep, WorkerStep, WorkerStep, WorkerStep, SelectCase B_panicChan,
       SuperStep]
      ((init (Some context_DeadlineExceeded))
      \<lparr>lock := True, worker := W_Handler\<rparr>)
    = Some ((init (Some context_DeadlineExceeded))
      \<lparr>worker := W_Exit,
        super := S_Done (Panicked (''context deadline exceeded'' @ [CHR 0x0A, CHR 0x0A] @ ''goroutine 7 [running]:''))\<rparr>)
   \<and> TrimSpace (Stack c_late) \<noteq> []"
proof -
  have h1: "run c_late
        [WorkerStep, CtxDone context_DeadlineExceeded]
        (init None)
      = Some ((init (Some context_DeadlineExceeded))
        \<lparr>lock := True, worker := W_Handler\<rparr>)"
    by (simp add: exec_simps)
  have h2: "worker ((init (Some context_DeadlineExceeded))
        \<lparr>lock := True, worker := W_Handler\<rparr>) = W_Handler"
    by (simp add: init_def)
  have h3: "handler c_late
        (ctx_Err ((init (Some context_DeadlineExceeded))
        \<lparr>lock := True, worker := W_Handler\<rparr>))
        (req c_late)
      = Panics (Some ''context deadline exceeded'')"
    by (simp add: c_late_def init_def)
  have h4: "run c_late
        [WorkerStep, WorkerStep, WorkerStep, WorkerStep, SelectCase B_panicChan,
         SuperStep]
        ((init (Some context_DeadlineExceeded))
        \<lparr>lock := True, worker := W_Handler\<rparr>)
      = Some ((init (Some context_DeadlineExceeded))
        \<lparr>worker := W_Exit,
          super := S_Done (Panicked (''context deadline exceeded'' @ [CHR 0x0A, CHR 0x0A] @ ''goroutine 7 [running]:''))\<rparr>)"
    by (simp add: exec_simps)
  have h5: "\<exists>ch\<in>set (Stack c_late). \<not> space_byte ch"
    by (rule bexI [of _ "CHR ''g''"]) (simp_all add: c_late_def space_byte_def white_space_def)
  note th = C3_panic_relayed_or_ctx_done [OF h1 h2 h3 h4 h5]
  from th have k: "TrimSpace (Stack c_late) \<noteq> []"
    by (elim conjE)
  from h1 h3 h4 k show ?thesis by (intro conjI)
qed

text \<open>
  The statement of C3 for every invocation whose handler panics fails when the deadline
  fires first: the \<^verbatim>\<open>select\<close> takes the context case and the wrapper returns
  \<^verbatim>\<open>(nil, DeadlineExceeded)\<close> through its normal return; the handler then panics with
  \<^verbatim>\<open>"boom"\<close>, and the relayed value stays in the buffer of \<^verbatim>\<open>panicChan\<close>, received
  by nobody.
\<close>

theorem C3_counterexample:
  "handler c_boom None (req c_boom) = Panics (Some ''boom'')
   \<and> run c_boom
      [CtxDone context_DeadlineExceeded, SelectCase B_ctxDone, SuperStep, WorkerStep,
       WorkerStep, WorkerStep, WorkerStep, WorkerStep]
      (init None)
    = Some \<lparr>ctx_Err = Some context_DeadlineExceeded, resp = None, err = None,
          lock = False, done_closed = False, panicChan = 
            [''boom'' @ [CHR 0x0A, CHR 0x0A] @ ''goroutine 7 [running]:''],
          worker = W_Exit,
          super = S_Done
           (Returned None
            (Some (status_Error codes_DeadlineExceeded ''context deadline exceeded'')))\<rparr>"
  by (simp add: exec_simps)

text \<open>
  C8. In every run the worker sends on \<^verbatim>\<open>panicChan\<close> at most once, and the buffer
  never holds more than one value. Whenever the worker stands at the send, the buffer of
  capacity 1 is empty, so the send is enabled and takes the worker to its end, in whatever
  state the supervisor is (also when it has returned through another case and will never
  receive). From the start of the deferred function the worker reaches its end in two
  steps when \<^verbatim>\<open>recover()\<close> yields a value, and in one when it yields \<^verbatim>\<open>nil\<close>.
\<close>

theorem C8_send_never_blocks:
  assumes "run c as (init ce) = Some t"
  shows "count_steps is_send c as (init ce) \<le> 1
       \<and> length (panicChan t) \<le> 1
       \<and> (\<forall>msg. worker t = W_Send msg \<longrightarrow>
             worker_step c t = Some (t\<lparr>panicChan := [msg], worker := W_Exit\<rparr>))
       \<and> (\<forall>v. worker t = W_DeferRecover (Some v) \<longrightarrow>
             run c [WorkerStep, WorkerStep] t =
               Some (t\<lparr>panicChan := [Sprintf_panic v (TrimSpace (Stack c))], worker := W_Exit\<rparr>))
       \<and> (worker t = W_DeferRecover None \<longrightarrow> run c [WorkerStep] t = Some (t\<lparr>worker := W_Exit\<rparr>))"
proof -
  have "inv c t" using assms by (rule reachable_inv)
  then have w: "worker_inv c t" by (simp add: inv_def)
  have pot: "(if is_send a u then 1 else 0) + (if worker u' = W_Exit then 0 else 1)
      \<le> (if worker u = W_Exit then 0 else (1::nat))" if "step c a u = Some u'" for a u u'
  proof (cases a)
    case WorkerStep
    with that show ?thesis
      by (cases "worker u")
         (auto simp: step_def worker_step_def is_send_def
               split: if_splits handler_result.splits option.splits)
  next
    case SuperStep
    with that show ?thesis
      by (cases "super u") (auto simp: step_def super_step_def is_send_def split: if_splits)
  next
    case (SelectCase b)
    with that show ?thesis
      by (cases "super u"; cases b)
         (auto simp: step_def select_case_def is_send_def split: if_splits option.splits list.splits)
  next
    case (CtxDone e)
    with that show ?thesis
      by (auto simp: step_def ctx_fire_def is_send_def split: option.splits)
  qed
  from count_steps_potential [of c is_send "\<lambda>u. if worker u = W_Exit then 0 else 1", OF pot assms]
  have cnt: "count_steps is_send c as (init ce) \<le> 1" by (simp split: if_splits)
  from w have len: "length (panicChan t) \<le> 1"
    by (cases "worker t") (auto simp: worker_inv_def split: if_splits)
  have send: "\<forall>msg. worker t = W_Send msg \<longrightarrow>
      worker_step c t = Some (t\<lparr>panicChan := [msg], worker := W_Exit\<rparr>)"
    using w by (auto simp: worker_inv_def worker_step_def)
  have rec: "\<forall>v. worker t = W_DeferRecover (Some v) \<longrightarrow>
      run c [WorkerStep, WorkerStep] t =
        Some (t\<lparr>panicChan := [Sprintf_panic v (TrimSpace (Stack c))], worker := W_Exit\<rparr>)"
    using w by (auto simp: worker_inv_def worker_step_def step_def)
  have rec0: "worker t = W_DeferRecover None \<longrightarrow> run c [WorkerStep] t = Some (t\<lparr>worker := W_Exit\<rparr>)"
    by (auto simp: worker_step_def step_def)
  from cnt len send rec rec0 show ?thesis by blast
qed

text \<open>
  The wrapper has already returned \<^verbatim>\<open>(nil, DeadlineExceeded)\<close> when the handler panics
  with \<^verbatim>\<open>"boom"\<close>: the worker stands at the send with nobody to receive, and the send
  goes through.
\<close>

theorem C8_send_never_blocks_witness:
  "run c_boom
      [CtxDone context_DeadlineExceeded, SelectCase B_ctxDone, SuperStep, WorkerStep,
       WorkerStep, WorkerStep, WorkerStep]
      (init None)
    = Some ((init (Some context_DeadlineExceeded))
      \<lparr>worker := W_Send (''boom'' @ [CHR 0x0A, CHR 0x0A] @ ''goroutine 7 [running]:''),
        super := S_Done (Returned None (Some (status_Error codes_DeadlineExceeded ''context deadline exceeded'')))\<rparr>)
   \<and> count_steps is_send c_boom
      [CtxDone context_DeadlineExceeded, SelectCase B_ctxDone, SuperStep, WorkerStep,
       WorkerStep, WorkerStep, WorkerStep]
      (init None) \<le> 1
   \<and> worker_step c_boom
      ((init (Some context_DeadlineExceeded))
      \<lparr>worker := W_Send (''boom'' @ [CHR 0x0A, CHR 0x0A] @ ''goroutine 7 [running]:''),
        super := S_Done (Returned None (Some (status_Error codes_DeadlineExceeded ''context deadline exceeded'')))\<rparr>)
    = Some ((init (Some context_DeadlineExceeded))
      \<lparr>panicChan := [''boom'' @ [CHR 0x0A, CHR 0x0A] @ ''goroutine 7 [running]:''],
        worker := W_Exit,
        super := S_Done (Returned None (Some (status_Error codes_DeadlineExceeded ''context deadline exceeded'')))\<rparr>)"
proof -
  have h1: "run c_boom
        [CtxDone context_DeadlineExceeded, SelectCase B_ctxDone, SuperStep, WorkerStep,
         WorkerStep, WorkerStep, WorkerStep]
        (init None)
      = Some ((init (Some context_DeadlineExceeded))
        \<lparr>worker := W_Send (''boom'' @ [CHR 0x0A, CHR 0x0A] @ ''goroutine 7 [running]:''),
          super := S_Done (Returned None (Some (status_Error codes_DeadlineExceeded ''context deadline exceeded'')))\<rparr>)"
    by (simp add: exec_simps)
  note th = C8_send_never_blocks [OF h1]
  from th have k0: "count_steps is_send c_boom
        [CtxDone context_DeadlineExceeded, SelectCase B_ctxDone, SuperStep, WorkerStep,
         WorkerStep, WorkerStep, WorkerStep]
        (init None) \<le> 1"
    by (elim conjE)
  have e0: "worker_step c_boom
        ((init (Some context_DeadlineExceeded))
        \<lparr>worker := W_Send (''boom'' @ [CHR 0x0A, CHR 0x0A] @ ''goroutine 7 [running]:''),
          super := S_Done (Returned None (Some (status_Error codes_DeadlineExceeded ''context deadline exceeded'')))\<rparr>)
      = Some ((init (Some context_DeadlineExceeded))
        \<lparr>panicChan := [''boom'' @ [CHR 0x0A, CHR 0x0A] @ ''goroutine 7 [running]:''],
          worker := W_Exit,
          super := S_Done (Returned None (Some (status_Error codes_DeadlineExceeded ''context deadline exceeded'')))\<rparr>)"
    by (simp add: exec_simps)
  from h1 k0 e0 show ?thesis by (intro conjI)
qed

text \<open>
  C9. When a call of the handler panics with \<^verbatim>\<open>nil\<close>, what follows depends on what
  \<^verbatim>\<open>recover()\<close> yields. If it yields \<^verbatim>\<open>nil\<close> (\<^verbatim>\<open>panicnil\<close>: Go 1.20 or older, or
  \<^verbatim>\<open>GODEBUG=panicnil=1\<close>), the worker never sends on \<^verbatim>\<open>panicChan\<close>, the buffer
  stays empty and \<^verbatim>\<open>done\<close> is never closed; the only case the \<^verbatim>\<open>select\<close> can ever
  take is the context case; every outcome the supervisor holds is a \<^verbatim>\<open>nil\<close> response
  with the error of the context case, never a panic; and a run that cannot be extended
  has returned that outcome. Otherwise (the default from Go 1.21) \<^verbatim>\<open>recover()\<close> yields a
  \<^verbatim>\<open>*runtime.PanicNilError\<close>, and the fault is relayed like any other: while
  \<^verbatim>\<open>ctx.Done()\<close> has not fired the only case the \<^verbatim>\<open>select\<close> can take is the panic
  case, which re-raises the error's message, two newlines and the trimmed stack trace; the
  only other way the wrapper ends is the context case.
\<close>

theorem C9_nil_panic:
  assumes "run c as (init ce0) = Some s" and "worker s = W_Handler"
    and "handler c (ctx_Err s) (req c) = Panics None"
    and "run c (WorkerStep # bs) s = Some t"
  shows "(panicnil c \<longrightarrow>
            \<not> done_closed t \<and> panicChan t = []
          \<and> count_steps is_send c (as @ WorkerStep # bs) (init ce0) = 0
          \<and> (\<forall>b. select_case b t \<noteq> None \<longrightarrow> b = B_ctxDone)
          \<and> (\<forall>out. pending_outcome (super t) = Some out \<longrightarrow>
                (\<exists>e. ctx_Err t = Some e \<and> out = Returned None (Some (ctx_done_error e))))
          \<and> (\<not> can_step c t \<longrightarrow>
                (\<exists>e. ctx_Err t = Some e
                   \<and> super t = S_Done (Returned None (Some (ctx_done_error e))))))
       \<and> (\<not> panicnil c \<longrightarrow>
            \<not> done_closed t
          \<and> (\<forall>b. select_case b t \<noteq> None \<and> ctx_Err t = None \<longrightarrow> b = B_panicChan)
          \<and> (\<forall>t'. select_case B_panicChan t = Some t' \<longrightarrow>
                super t' = S_DeferCancel
                  (Panicked (PanicNilError @ [CHR 0x0A, CHR 0x0A] @ TrimSpace (Stack c))))
          \<and> (\<forall>out. pending_outcome (super t) = Some out \<longrightarrow>
                out = Panicked (PanicNilError @ [CHR 0x0A, CHR 0x0A] @ TrimSpace (Stack c))
                \<or> (\<exists>e. ctx_Err t = Some e \<and> out = Returned None (Some (ctx_done_error e))))
          \<and> (\<not> can_step c t \<longrightarrow> (\<exists>out. super t = S_Done out)))"
proof -
  note hp = handler_panics [OF assms(1,2,3)]
  have rt: "run c (as @ WorkerStep # bs) (init ce0) = Some t"
    using assms(1,4) by (simp add: run_append)
  then have it: "inv c t" by (rule reachable_inv)
  have fin: "\<not> can_step c t \<longrightarrow> (\<exists>out. super t = S_Done out)"
    using stuck_returned [OF it] by blast
  have legacy: "\<not> done_closed t \<and> panicChan t = []
      \<and> count_steps is_send c (as @ WorkerStep # bs) (init ce0) = 0
      \<and> (\<forall>b. select_case b t \<noteq> None \<longrightarrow> b = B_ctxDone)
      \<and> (\<forall>out. pending_outcome (super t) = Some out \<longrightarrow>
            (\<exists>e. ctx_Err t = Some e \<and> out = Returned None (Some (ctx_done_error e))))
      \<and> (\<not> can_step c t \<longrightarrow>
            (\<exists>e. ctx_Err t = Some e \<and> super t = S_Done (Returned None (Some (ctx_done_error e)))))"
    if nil: "panicnil c"
  proof -
    let ?s' = "s\<lparr>worker := W_DeferUnlock None\<rparr>"
    from hp(1) nil have st: "step c WorkerStep s = Some ?s'" by (simp add: gopanic_def)
    with assms(4) have r: "run c bs ?s' = Some t" by simp
    from hp(2,3,4) have "lost ?s'"
      by (auto simp: lost_def split: option.splits outcome.splits)
    from lost_run [OF this r] have l: "lost t" and c0: "count_steps is_send c bs ?s' = 0"
      by simp_all
    have "\<not> is_send WorkerStep s" using assms(2) by (simp add: is_send_def)
    with st c0 have "count_steps is_send c (WorkerStep # bs) s = 0" by simp
    with count_steps_append [OF assms(1), of is_send "WorkerStep # bs"] hp(5)
    have cnt: "count_steps is_send c (as @ WorkerStep # bs) (init ce0) = 0" by simp
    from l have d: "\<not> done_closed t" and p: "panicChan t = []" by (simp_all add: lost_def)
    have sel: "\<forall>b. select_case b t \<noteq> None \<longrightarrow> b = B_ctxDone"
    proof (intro allI impI)
      fix b assume "select_case b t \<noteq> None"
      with d p show "b = B_ctxDone"
        by (cases b; cases "super t") (auto simp: select_case_def)
    qed
    from it have s: "super_inv c t" by (simp add: inv_def)
    have out: "\<forall>out. pending_outcome (super t) = Some out \<longrightarrow>
        (\<exists>e. ctx_Err t = Some e \<and> out = Returned None (Some (ctx_done_error e)))"
    proof (intro allI impI)
      fix out assume po: "pending_outcome (super t) = Some out"
      show "\<exists>e. ctx_Err t = Some e \<and> out = Returned None (Some (ctx_done_error e))"
      proof (cases out)
        case (Panicked msg)
        with po l show ?thesis by (simp add: lost_def)
      next
        case (Returned r e)
        with po s d show ?thesis
          by (cases "super t") (auto simp: super_inv_def outcome_inv_def)
      qed
    qed
    have stuck: "\<not> can_step c t \<longrightarrow>
        (\<exists>e. ctx_Err t = Some e \<and> super t = S_Done (Returned None (Some (ctx_done_error e))))"
    proof
      assume "\<not> can_step c t"
      with fin obtain o' where o': "super t = S_Done o'" by blast
      with out show "\<exists>e. ctx_Err t = Some e \<and> super t = S_Done (Returned None (Some (ctx_done_error e)))"
        by auto
    qed
    from d p cnt sel out stuck show ?thesis by blast
  qed
  have modern: "\<not> done_closed t
      \<and> (\<forall>b. select_case b t \<noteq> None \<and> ctx_Err t = None \<longrightarrow> b = B_panicChan)
      \<and> (\<forall>t'. select_case B_panicChan t = Some t' \<longrightarrow>
            super t' = S_DeferCancel
              (Panicked (PanicNilError @ [CHR 0x0A, CHR 0x0A] @ TrimSpace (Stack c))))
      \<and> (\<forall>out. pending_outcome (super t) = Some out \<longrightarrow>
            out = Panicked (PanicNilError @ [CHR 0x0A, CHR 0x0A] @ TrimSpace (Stack c))
            \<or> (\<exists>e. ctx_Err t = Some e \<and> out = Returned None (Some (ctx_done_error e))))
      \<and> (\<not> can_step c t \<longrightarrow> (\<exists>out. super t = S_Done out))"
    if nonil: "\<not> panicnil c"
  proof -
    let ?s' = "s\<lparr>worker := W_DeferUnlock (Some PanicNilError)\<rparr>"
    from hp(1) nonil have st: "step c WorkerStep s = Some ?s'" by (simp add: gopanic_def)
    with assms(4) have r: "run c bs ?s' = Some t" by simp
    from hp(2,3,4) have "relaying c PanicNilError ?s'"
      by (auto simp: relaying_def split: option.splits outcome.splits)
    from relaying_run [OF this r] have rel: "relaying c PanicNilError t" .
    from relaying_outcomes [OF rel it] fin show ?thesis by blast
  qed
  from legacy modern show ?thesis by blast
qed

text \<open>
  Under the older rule the handler panics with \<^verbatim>\<open>nil\<close>, the worker ends without a
  send, the deadline fires and the wrapper returns \<^verbatim>\<open>(nil, DeadlineExceeded)\<close>; nothing
  can move any more.
\<close>

theorem C9_nil_panic_witness:
  "run c_nil_legacy
      [WorkerStep]
      (init None)
    = Some ((init (None))
      \<lparr>lock := True, worker := W_Handler\<rparr>)
   \<and> handler c_nil_legacy
      (ctx_Err ((init (None))
      \<lparr>lock := True, worker := W_Handler\<rparr>))
      (req c_nil_legacy)
    = Panics None
   \<and> run c_nil_legacy
      (WorkerStep # [WorkerStep, WorkerStep, CtxDone context_DeadlineExceeded, SelectCase B_ctxDone,
       SuperStep])
      ((init (None))
      \<lparr>lock := True, worker := W_Handler\<rparr>)
    = Some ((init (Some context_DeadlineExceeded))
      \<lparr>worker := W_Exit,
        super := S_Done (Returned None (Some (status_Error codes_DeadlineExceeded ''context deadline exceeded'')))\<rparr>)
   \<and> panicnil c_nil_legacy
   \<and> count_steps is_send c_nil_legacy
      ([WorkerStep] @ WorkerStep # [WorkerStep, WorkerStep, CtxDone context_DeadlineExceeded, SelectCase B_ctxDone,
       SuperStep])
      (init None) = 0
   \<and> \<not> can_step c_nil_legacy
      ((init (Some context_DeadlineExceeded))
      \<lparr>worker := W_Exit,
        super := S_Done (Returned None (Some (status_Error codes_DeadlineExceeded ''context deadline exceeded'')))\<rparr>)"
proof -
  have h1: "run c_nil_legacy
        [WorkerStep]
        (init None)
      = Some ((init (None))
        \<lparr>lock := True, worker := W_Handler\<rparr>)"
    by (simp add: exec_simps)
  have h2: "worker ((init (None))
        \<lparr>lock := True, worker := W_Handler\<rparr>) = W_Handler"
    by (simp add: init_def)
  have h3: "handler c_nil_legacy
        (ctx_Err ((init (None))
        \<lparr>lock := True, worker := W_Handler\<rparr>))
        (req c_nil_legacy)
      = Panics None"
    by (simp add: c_nil_legacy_def)
  have h4: "run c_nil_legacy
        (WorkerStep # [WorkerStep, WorkerStep, CtxDone context_DeadlineExceeded, SelectCase B_ctxDone,
         SuperStep])
        ((init (None))
        \<lparr>lock := True, worker := W_Handler\<rparr>)
      = Some ((init (Some context_DeadlineExceeded))
        \<lparr>worker := W_Exit,
          super := S_Done (Returned None (Some (status_Error codes_DeadlineExceeded ''context deadline exceeded'')))\<rparr>)"
    by (simp add: exec_simps)
  have pn: "panicnil c_nil_legacy"
    by (simp add: c_nil_legacy_def)
  note th = C9_nil_panic [OF h1 h2 h3 h4]
  from th [THEN conjunct1, THEN mp, OF pn] have k: "count_steps is_send c_nil_legacy
        ([WorkerStep] @ WorkerStep # [WorkerStep, WorkerStep, CtxDone context_DeadlineExceeded, SelectCase B_ctxDone,
         SuperStep])
        (init None) = 0"
    by (elim conjE)
  have e: "\<not> can_step c_nil_legacy
        ((init (Some context_DeadlineExceeded))
        \<lparr>worker := W_Exit,
          super := S_Done (Returned None (Some (status_Error codes_DeadlineExceeded ''context deadline exceeded'')))\<rparr>)"
    by (simp add: exec_simps)
  from h1 h3 h4 pn k e show ?thesis by (intro conjI)
qed

text \<open>
  The statement of C9 for every handler that panics with \<^verbatim>\<open>nil\<close>, that \<^verbatim>\<open>recover()\<close>
  yields \<^verbatim>\<open>nil\<close> and the fault is lost, fails under the default of Go 1.21 and
  later: the worker sends once, the \<^verbatim>\<open>select\<close> takes the panic case while
  \<^verbatim>\<open>ctx.Done()\<close> is open, and the wrapper panics with the message of the
  \<^verbatim>\<open>*runtime.PanicNilError\<close>, two newlines and the stack trace.
\<close>

theorem C9_counterexample:
  "handler c_nil None (req c_nil) = Panics None
   \<and> run c_nil
      [WorkerStep, WorkerStep, WorkerStep, WorkerStep, WorkerStep,
       SelectCase B_panicChan, SuperStep]
      (init None)
    = Some \<lparr>ctx_Err = Some context_Canceled, resp = None, err = None,
          lock = False, done_closed = False, panicChan = [],
          worker = W_Exit,
          super = S_Done
           (Panicked
            (''panic called with nil argument'' @ [CHR 0x0A, CHR 0x0A] @ ''goroutine 7 [running]:''))\<rparr>
   \<and> count_steps is_send c_nil
      [WorkerStep, WorkerStep, WorkerStep, WorkerStep, WorkerStep,
       SelectCase B_panicChan, SuperStep]
      (init None) = 1"
  by (simp add: exec_simps)

text \<open>
  C10. In every run \<^verbatim>\<open>resp\<close> and \<^verbatim>\<open>err\<close> are each assigned at most once: exactly
  once as soon as the worker is past the assignment of a handler that returned, and never
  when the handler panicked (a worker that has ended without having written the pair has
  seen the handler panic). The writes and the close of \<^verbatim>\<open>done\<close> happen while the
  mutex is locked, the supervisor does not hold it, and \<^verbatim>\<open>done\<close> is still open. The
  supervisor reads the pair at most once, with the mutex locked and not held by the
  worker, after \<^verbatim>\<open>done\<close> was closed, and what it reads is the complete pair of one
  return of the handler. An outcome the supervisor holds is the same in every
  continuation of the run, whatever the worker writes later.
\<close>

theorem C10_guarded_pair:
  assumes "run c as (init ce) = Some t" and "run c bs t = Some u"
  shows "count_steps is_write_resp c as (init ce) = (if resp_written t then 1 else 0)
       \<and> count_steps is_write_err c as (init ce) = (if pair_written t then 1 else 0)
       \<and> count_steps is_read c as (init ce) \<le> 1
       \<and> (pair_written t \<longrightarrow> called c (ctx_Err t) (Returns (resp t) (err t)))
       \<and> (worker t = W_Exit \<and> \<not> pair_written t \<longrightarrow> (\<exists>p. called c (ctx_Err t) (Panics p)))
       \<and> (is_write_resp WorkerStep t \<or> is_write_err WorkerStep t \<or> worker t = W_CloseDone \<longrightarrow>
             lock t \<and> \<not> super_holds (super t) \<and> \<not> done_closed t)
       \<and> (is_read SuperStep t \<longrightarrow>
             lock t \<and> \<not> worker_holds (worker t) \<and> done_closed t
             \<and> called c (ctx_Err t) (Returns (resp t) (err t)))
       \<and> (\<forall>out. pending_outcome (super t) = Some out \<longrightarrow> pending_outcome (super u) = Some out)"
proof -
  have it: "inv c t" using assms(1) by (rule reachable_inv)
  then have w: "worker_inv c t" and s: "super_inv c t" and l: "lock_inv t"
    by (simp_all add: inv_def)
  note c1 = count_write_resp [OF assms(1)]
  note c2 = count_write_err [OF assms(1)]
  note c3 = count_read [OF assms(1)]
  have pw: "pair_written t \<longrightarrow> called c (ctx_Err t) (Returns (resp t) (err t))"
    using w by (cases "worker t") (auto simp: worker_inv_def pair_written_def split: if_splits)
  have np: "worker t = W_Exit \<and> \<not> pair_written t \<longrightarrow> (\<exists>p. called c (ctx_Err t) (Panics p))"
    using w by (auto simp: worker_inv_def pair_written_def split: if_splits)
  have wr: "is_write_resp WorkerStep t \<or> is_write_err WorkerStep t \<or> worker t = W_CloseDone \<longrightarrow>
      lock t \<and> \<not> super_holds (super t) \<and> \<not> done_closed t"
    using w l
    by (cases "worker t")
       (auto simp: worker_inv_def lock_inv_def worker_holds_def is_write_resp_def is_write_err_def)
  have rd: "is_read SuperStep t \<longrightarrow>
      lock t \<and> \<not> worker_holds (worker t) \<and> done_closed t
      \<and> called c (ctx_Err t) (Returns (resp t) (err t))"
  proof
    assume "is_read SuperStep t"
    then have sr: "super t = S_Return" by (cases "super t") (auto simp: is_read_def)
    with s have d: "done_closed t" by (simp add: super_inv_def)
    from sr l have "lock t" "\<not> worker_holds (worker t)"
      by (auto simp: lock_inv_def super_holds_def)
    moreover from w d have "called c (ctx_Err t) (Returns (resp t) (err t))"
      by (cases "worker t") (auto simp: worker_inv_def split: if_splits)
    ultimately show "lock t \<and> \<not> worker_holds (worker t) \<and> done_closed t
        \<and> called c (ctx_Err t) (Returns (resp t) (err t))"
      using d by simp
  qed
  have st: "\<forall>out. pending_outcome (super t) = Some out \<longrightarrow> pending_outcome (super u) = Some out"
    using pending_outcome_run [OF assms(2)] by blast
  from c1 c2 c3 pw np wr rd st show ?thesis by blast
qed

text \<open>
  The handler returns \<^verbatim>\<open>("ok", nil)\<close>; the supervisor stands at the read of line 58
  with the mutex locked; the pair has been written once.
\<close>

theorem C10_guarded_pair_witness:
  "run c_ok
      [WorkerStep, WorkerStep, WorkerStep, WorkerStep, WorkerStep, SelectCase B_done,
       WorkerStep, SuperStep]
      (init None)
    = Some ((init None)
      \<lparr>resp := Some ''ok'', lock := True, done_closed := True,
        worker := W_DeferRecover None, super := S_Return\<rparr>)
   \<and> run c_ok
      [SuperStep]
      ((init None)
      \<lparr>resp := Some ''ok'', lock := True, done_closed := True,
        worker := W_DeferRecover None, super := S_Return\<rparr>)
    = Some ((init None)
      \<lparr>resp := Some ''ok'', lock := True, done_closed := True,
        worker := W_DeferRecover None,
        super := S_DeferUnlock (Returned (Some ''ok'') None)\<rparr>)
   \<and> count_steps is_read c_ok
      [WorkerStep, WorkerStep, WorkerStep, WorkerStep, WorkerStep, SelectCase B_done,
       WorkerStep, SuperStep]
      (init None) \<le> 1
   \<and> count_steps is_write_resp c_ok
      [WorkerStep, WorkerStep, WorkerStep, WorkerStep, WorkerStep, SelectCase B_done,
       WorkerStep, SuperStep]
      (init None) = 1
   \<and> count_steps is_write_err c_ok
      [WorkerStep, WorkerStep, WorkerStep, WorkerStep, WorkerStep, SelectCase B_done,
       WorkerStep, SuperStep]
      (init None) = 1"
proof -
  have h1: "run c_ok
        [WorkerStep, WorkerStep, WorkerStep, WorkerStep, WorkerStep, SelectCase B_done,
         WorkerStep, SuperStep]
        (init None)
      = Some ((init None)
        \<lparr>resp := Some ''ok'', lock := True, done_closed := True,
          worker := W_DeferRecover None, super := S_Return\<rparr>)"
    by (simp add: exec_simps)
  have h2: "run c_ok
        [SuperStep]
        ((init None)
        \<lparr>resp := Some ''ok'', lock := True, done_closed := True,
          worker := W_DeferRecover None, super := S_Return\<rparr>)
      = Some ((init None)
        \<lparr>resp := Some ''ok'', lock := True, done_closed := True,
          worker := W_DeferRecover None,
          super := S_DeferUnlock (Returned (Some ''ok'') None)\<rparr>)"
    by (simp add: exec_simps)
  note th = C10_guarded_pair [OF h1 h2]
  from th have k0: "count_steps is_read c_ok
        [WorkerStep, WorkerStep, WorkerStep, WorkerStep, WorkerStep, SelectCase B_done,
         WorkerStep, SuperStep]
        (init None) \<le> 1"
    by (elim conjE)
  have e0: "count_steps is_write_resp c_ok
        [WorkerStep, WorkerStep, WorkerStep, WorkerStep, WorkerStep, SelectCase B_done,
         WorkerStep, SuperStep]
        (init None) = 1"
    by (simp add: exec_simps)
  have e1: "count_steps is_write_err c_ok
        [WorkerStep, WorkerStep, WorkerStep, WorkerStep, WorkerStep, SelectCase B_done,
         WorkerStep, SuperStep]
        (init None) = 1"
    by (simp add: exec_simps)
  from h1 h2 k0 e0 e1 show ?thesis by (intro conjI)
qed

text \<open>
  The statement of C10 that the pair is written exactly once, and that the worker releases
  the mutex only after closing \<^verbatim>\<open>done\<close>, fails for a handler that panics: the worker
  runs to its end, the pair has been written zero times, and the mutex is released while
  \<^verbatim>\<open>done\<close> is open.
\<close>

theorem C10_counterexample:
  "handler c_boom None (req c_boom) = Panics (Some ''boom'')
   \<and> run c_boom
      [WorkerStep, WorkerStep, WorkerStep, WorkerStep, WorkerStep]
      (init None)
    = Some \<lparr>ctx_Err = None, resp = None, err = None,
          lock = False, done_closed = False, panicChan = 
            [''boom'' @ [CHR 0x0A, CHR 0x0A] @ ''goroutine 7 [running]:''],
          worker = W_Exit,
          super = S_Select\<rparr>
   \<and> count_steps is_write_resp c_boom
      [WorkerStep, WorkerStep, WorkerStep, WorkerStep, WorkerStep]
      (init None) = 0
   \<and> count_steps is_write_err c_boom
      [WorkerStep, WorkerStep, WorkerStep, WorkerStep, WorkerStep]
      (init None) = 0"
  by (simp add: exec_simps)

end
